theory Spec2Isabelle
  imports Complex_Main
begin

section \<open>JavaScript library operations used by result.ts\<close>

text \<open>
  Strings are lists of characters. \<open>String.prototype.toLowerCase\<close> is modelled on the
  ASCII letters: \<open>A\<close>..\<open>Z\<close> (codes 65..90) are moved to \<open>a\<close>..\<open>z\<close>, every other
  character is kept.
\<close>

definition toLowerCaseChar :: "char \<Rightarrow> char" where
  "toLowerCaseChar c =
     (let n = of_char c :: nat in if 65 \<le> n \<and> n \<le> 90 then char_of (n + 32) else c)"

definition toLowerCase :: "string \<Rightarrow> string" where
  "toLowerCase s = map toLowerCaseChar s"

text \<open>\<open>s.replace(/pat/, rep)\<close> for a literal pattern: the first occurrence is replaced.
  A JavaScript string is immutable, the result is a new string.\<close>

fun replace :: "string \<Rightarrow> string \<Rightarrow> string \<Rightarrow> string" where
  "replace pat rep [] = (if pat = [] then rep else [])"
| "replace pat rep (c # cs) =
     (if take (length pat) (c # cs) = pat then rep @ drop (length pat) (c # cs)
      else c # replace pat rep cs)"

text \<open>\<open>s.substr(1)\<close>.\<close>

definition substr1 :: "string \<Rightarrow> string" where
  "substr1 s = drop 1 s"

text \<open>\<open>name.split('/')[0]\<close>: the text before the first \<open>/\<close>, the whole string when
  there is none.\<close>

definition split_first :: "string \<Rightarrow> string" where
  "split_first s = takeWhile (\<lambda>c. c \<noteq> CHR ''/'') s"

text \<open>\<open>xs.indexOf(x)\<close>: the first index holding \<open>x\<close>, or \<open>-1\<close>.\<close>

fun indexOf :: "'a list \<Rightarrow> 'a \<Rightarrow> int" where
  "indexOf [] x = - 1"
| "indexOf (y # ys) x =
     (if y = x then 0 else (let i = indexOf ys x in if i < 0 then - 1 else i + 1))"

text \<open>\<open>xs.splice(start, deleteCount)\<close>, the array left behind. A negative \<open>start\<close>
  counts from the end of the array.\<close>

definition array_splice :: "int \<Rightarrow> nat \<Rightarrow> 'a list \<Rightarrow> 'a list" where
  "array_splice start deleteCount xs =
     (let len = int (length xs);
          actualStart = nat (if start < 0 then max (len + start) 0 else min start len)
      in take actualStart xs @ drop (actualStart + deleteCount) xs)"

text \<open>The template literal \<open>`${n}`\<close> of an integer-valued number: its decimal digits,
  with a minus sign when negative.\<close>

function decimal :: "nat \<Rightarrow> string" where
  "decimal n =
     (if n < 10 then [''0123456789'' ! n]
      else decimal (n div 10) @ [''0123456789'' ! (n mod 10)])"
  by pat_completeness auto
termination
  by (relation "measure id") auto

declare decimal.simps [simp del]

definition numToString :: "int \<Rightarrow> string" where
  "numToString i = (if i < 0 then CHR ''-'' # decimal (nat (- i)) else decimal (nat i))"

text \<open>
  Numbers that hold a duration are exact rationals here (the rounding of IEEE doubles is
  not modelled). \<open>a % b\<close> takes the sign of the dividend: the quotient is truncated.
\<close>

definition js_trunc :: "rat \<Rightarrow> int" where
  "js_trunc x = (if 0 \<le> x then \<lfloor>x\<rfloor> else \<lceil>x\<rceil>)"

definition js_rem :: "rat \<Rightarrow> rat \<Rightarrow> rat" where
  "js_rem a b = a - b * of_int (js_trunc (a / b))"

text \<open>
  \<open>table[key]\<close> on an object read from a JSON file. The result is the value of the
  table's own property, or, for a key that the table does not have but
  \<open>Object.prototype\<close> has, the inherited property (a function, or \<open>Object.prototype\<close>
  itself for \<open>__proto__\<close>), or \<open>undefined\<close>. An inherited property is truthy and has
  neither \<open>link\<close> nor \<open>substr\<close>.
\<close>

datatype 'a property = Absent | Own 'a | Inherited

definition objectPrototypeKeys :: "string list" where
  "objectPrototypeKeys =
     [''constructor'', ''toString'', ''toLocaleString'', ''valueOf'', ''hasOwnProperty'',
      ''isPrototypeOf'', ''propertyIsEnumerable'', ''__proto__'', ''__defineGetter__'',
      ''__defineSetter__'', ''__lookupGetter__'', ''__lookupSetter__'']"

definition getProperty :: "(string \<rightharpoonup> 'a) \<Rightarrow> string \<Rightarrow> 'a property" where
  "getProperty table key =
     (case table key of
        Some v \<Rightarrow> Own v
      | None \<Rightarrow> if key \<in> set objectPrototypeKeys then Inherited else Absent)"

text \<open>The exception that the code can throw: reading a property of \<open>undefined\<close>, or calling
  what is not a function.\<close>

datatype exception = TypeError

section \<open>External types and configuration\<close>

text \<open>
  Modelled from the spec: the enum \<open>Severity\<close> of \<open>@hint/utils-types\<close>, whose declaration
  is not part of the sources at hand. result.ts names the members \<open>off\<close>, \<open>default\<close>,
  \<open>warning\<close> and \<open>error\<close>; the specification (4.3, 9) has the root's test stricter than
  the category's, so that the enum has members that a category counts and the root does
  not. These are \<open>information\<close> and \<open>hint\<close>; the declaration is
  \<open>off = 0, information = 1, hint = 2, warning = 3, error = 4, default = 5\<close>.
  \<open>Severity[s].toString()\<close> is the member's name.
\<close>

datatype Severity = off | information | hint | warning | error | default

fun Severity_name :: "Severity \<Rightarrow> string" where
  "Severity_name off = ''off''"
| "Severity_name information = ''information''"
| "Severity_name hint = ''hint''"
| "Severity_name warning = ''warning''"
| "Severity_name error = ''error''"
| "Severity_name default = ''default''"

text \<open>Of a \<open>Problem\<close> the aggregation reads \<open>hintId\<close>, \<open>category\<close> and \<open>severity\<close>;
  \<open>message\<close> stands for the rest of its payload.\<close>

record Problem =
  hintId :: string
  category :: string
  severity :: Severity
  message :: string

record ThirdPartyLogo =
  name :: string
  url :: string
  alt :: string

record ThirdPartyInfo =
  logo :: ThirdPartyLogo
  link :: string
  details :: "bool option"

text \<open>
  The two JSON tables loaded at start-up and the localisation function are parameters:
  the own properties of \<open>thirdPartyServices\<close> (third-party-service-config.json) and of
  \<open>categoryImages\<close> (category-images.json), and \<open>getCategoryName\<close> of
  \<open>@hint/utils-i18n\<close>.
\<close>

record Config =
  thirdPartyServices :: "string \<rightharpoonup> ThirdPartyInfo"
  categoryImages :: "string \<rightharpoonup> string"
  getCategoryName :: "string \<Rightarrow> string option \<Rightarrow> string"

definition hintsWithoutDocs :: "string list" where
  "hintsWithoutDocs = [''optimize-image'']"

text \<open>The fields of \<open>FormatterOptions\<close> that the constructor of \<open>AnalysisResult\<close> reads;
  each may be undefined.\<close>

record FormatterOptions =
  status :: "string option"
  scanTime :: "rat option"
  date :: "string option"
  version :: "string option"
  isScanner :: "bool option"

section \<open>HintResult\<close>

record HintResult =
  status :: string
  count :: int
  problems :: "Problem list"
  name :: string
  thirdPartyInfo :: "ThirdPartyInfo option"
  hasDoc :: bool

text \<open>
  The constructor; a parameter that shares its name with a field is written with a
  prime. \<open>cloneDeep\<close> is the identity on values, and gives an empty object for an
  inherited property: then \<open>this.thirdPartyInfo.link\<close> is \<open>undefined\<close> and the call of
  \<open>replace\<close> on it throws. The result of \<open>link.replace(/%URL%/, url)\<close> is computed and
  dropped, as in the source, which does not assign it.
\<close>

definition HintResult_new ::
    "Config \<Rightarrow> string \<Rightarrow> string \<Rightarrow> string \<Rightarrow> bool \<Rightarrow> exception + HintResult" where
  "HintResult_new cfg name' status' url' isScanner' =
     (let baseName = split_first name'
      in case getProperty (thirdPartyServices cfg) baseName of
           Absent \<Rightarrow>
             Inr \<lparr>HintResult.status = status', count = 0, problems = [], name = name',
                  thirdPartyInfo = None, hasDoc = (name' \<notin> set hintsWithoutDocs)\<rparr>
         | Inherited \<Rightarrow> Inl TypeError
         | Own entry \<Rightarrow>
             (let _ = replace ''%URL%'' url' (link entry);
                  info = (if \<not> isScanner'
                          then entry\<lparr>logo := (logo entry)
                                 \<lparr>ThirdPartyLogo.url := substr1 (ThirdPartyLogo.url (logo entry))\<rparr>\<rparr>
                          else entry)
              in Inr \<lparr>HintResult.status = status', count = 0, problems = [], name = name',
                      thirdPartyInfo = Some info, hasDoc = (name' \<notin> set hintsWithoutDocs)\<rparr>))"

definition HintResult_addProblem :: "Problem \<Rightarrow> HintResult \<Rightarrow> HintResult" where
  "HintResult_addProblem problem h =
     h\<lparr>problems := problems h @ [problem], count := count h + 1\<rparr>"

section \<open>CategoryResult\<close>

text \<open>
  An object is identified by a reference. The \<open>HintResult\<close> objects that a category has
  created live in its \<open>hintStore\<close>, never shrinking; a reference is the position of the
  object there, and two references are the same object iff they are equal. The arrays
  \<open>passed\<close> and \<open>hints\<close> and the \<open>Map\<close> in \<open>cache\<close> hold references, so that a hint
  changed through one of them is changed for all. Counters are JavaScript numbers, here
  unbounded integers.

  A method that can throw returns, beside its result or the exception, the object as the
  call left it.
\<close>

type_synonym ref = nat

record CategoryResult =
  hintsCount :: int
  passed :: "ref list"
  hints :: "ref list"
  name :: string
  localizedName :: string
  image :: "string property"
  status :: string
  cache :: "string \<rightharpoonup> ref"
  url :: string
  isScanner :: bool
  hintStore :: "HintResult list"

text \<open>The constructor. \<open>this.image && !isScanner\<close>: an undefined or empty image is falsy;
  an inherited property is truthy and has no \<open>substr\<close>, so that the call throws.\<close>

definition CategoryResult_new ::
    "Config \<Rightarrow> string \<Rightarrow> string \<Rightarrow> bool \<Rightarrow> string option \<Rightarrow> exception + CategoryResult" where
  "CategoryResult_new cfg name' url' isScanner' language =
     (let localizedName' = getCategoryName cfg (toLowerCase name') language;
          image0 = getProperty (categoryImages cfg) (toLowerCase name');
          this = \<lparr>hintsCount = 0, passed = [], hints = [], name = name',
                  localizedName = localizedName', image = image0, status = ''finished'',
                  cache = Map.empty, url = url', isScanner = isScanner', hintStore = []\<rparr>
      in case image0 of
           Absent \<Rightarrow> Inr this
         | Own s \<Rightarrow> if s \<noteq> [] \<and> \<not> isScanner' then Inr (this\<lparr>image := Own (substr1 s)\<rparr>)
                    else Inr this
         | Inherited \<Rightarrow> if \<not> isScanner' then Inl TypeError else Inr this)"

definition CategoryResult_getHintByName ::
    "string \<Rightarrow> CategoryResult \<Rightarrow> ref option \<times> CategoryResult" where
  "CategoryResult_getHintByName name' c =
     (let lowerCaseName = toLowerCase name'
      in case CategoryResult.cache c lowerCaseName of
           Some hint' \<Rightarrow> (Some hint', c)
         | None \<Rightarrow>
             (case find (\<lambda>hi. toLowerCase (HintResult.name (hintStore c ! hi)) = lowerCaseName)
                        (hints c) of
                Some hint' \<Rightarrow>
                  (Some hint', c\<lparr>CategoryResult.cache := (CategoryResult.cache c)(lowerCaseName \<mapsto> hint')\<rparr>)
              | None \<Rightarrow> (None, c)))"

definition CategoryResult_addHint ::
    "Config \<Rightarrow> string \<Rightarrow> string \<Rightarrow> CategoryResult \<Rightarrow> (exception + ref) \<times> CategoryResult" where
  "CategoryResult_addHint cfg name' status' c =
     (case CategoryResult_getHintByName name' c of
        (Some hint', c1) \<Rightarrow> (Inr hint', c1)
      | (None, c1) \<Rightarrow>
          (case HintResult_new cfg name' status' (CategoryResult.url c1)
                  (CategoryResult.isScanner c1) of
             Inl e \<Rightarrow> (Inl e, c1)
           | Inr new \<Rightarrow>
               (let hint' = length (hintStore c1);
                    c2 = c1\<lparr>hintStore := hintStore c1 @ [new]\<rparr>
                in if status' = ''pass''
                   then (Inr hint', c2\<lparr>passed := passed c2 @ [hint']\<rparr>)
                   else (Inr hint', c2\<lparr>hints := hints c2 @ [hint']\<rparr>))))"

text \<open>\<open>addProblem\<close> returns nothing: the first component is the exception, if one was
  thrown.\<close>

definition CategoryResult_addProblem ::
    "Config \<Rightarrow> Problem \<Rightarrow> CategoryResult \<Rightarrow> exception option \<times> CategoryResult" where
  "CategoryResult_addProblem cfg problem c =
     (let hintId' = hintId problem;
          (found, c1) = CategoryResult_getHintByName hintId' c
      in case (case found of
                 Some h \<Rightarrow> Inr (h, c1)
               | None \<Rightarrow>
                   (case HintResult_new cfg hintId' (Severity_name (severity problem))
                           (CategoryResult.url c1) (CategoryResult.isScanner c1) of
                      Inl e \<Rightarrow> Inl e
                    | Inr new \<Rightarrow>
                        Inr (length (hintStore c1),
                             c1\<lparr>hintStore := hintStore c1 @ [new],
                                hints := hints c1 @ [length (hintStore c1)]\<rparr>))) of
           Inl e \<Rightarrow> (Some e, c1)
         | Inr (hint', c2) \<Rightarrow>
             (let c3 = (if severity problem \<noteq> off \<and> severity problem \<noteq> default
                        then c2\<lparr>hintsCount := hintsCount c2 + 1\<rparr> else c2)
              in (None, c3\<lparr>hintStore := (hintStore c3)
                           [hint' := HintResult_addProblem problem (hintStore c3 ! hint')]\<rparr>)))"

section \<open>AnalysisResult\<close>

text \<open>The \<open>CategoryResult\<close> objects that the analysis result has created live in its
  \<open>categoryStore\<close>; \<open>categories\<close> and \<open>cache\<close> hold references into it.\<close>

record AnalysisResult =
  hintsCount :: int
  scanTime :: string
  date :: "string option"
  version :: "string option"
  permalink :: string
  categories :: "ref list"
  url :: string
  isFinish :: bool
  status :: string
  id :: string
  isScanner :: bool
  percentage :: int
  showError :: bool
  cache :: "string \<rightharpoonup> ref"
  categoryStore :: "CategoryResult list"

definition pad :: "string \<Rightarrow> string" where
  "pad timeString =
     (if timeString \<noteq> [] \<and> length timeString = 1 then CHR ''0'' # timeString else timeString)"

definition parseScanTime :: "rat \<Rightarrow> string" where
  "parseScanTime scanTime' =
     (let seconds = \<lfloor>js_rem (scanTime' / 1000) 60\<rfloor>;
          minutes = \<lfloor>js_rem (scanTime' / 1000 / 60) 60\<rfloor>;
          hours = \<lfloor>scanTime' / 1000 / 3600\<rfloor>;
          minutesDisplay = pad (numToString minutes);
          secondsDisplay = pad (numToString seconds);
          time = minutesDisplay @ '':'' @ secondsDisplay
      in if hours > 0 then pad (numToString hours) @ '':'' @ time else time)"

text \<open>The constructor. \<open>options.status ? options.status : 'finished'\<close> and
  \<open>options.scanTime || 0\<close> take the default for an undefined, empty or zero value.\<close>

definition AnalysisResult_new :: "string \<Rightarrow> FormatterOptions \<Rightarrow> AnalysisResult" where
  "AnalysisResult_new target options =
     (let status' = (case FormatterOptions.status options of
                       Some s \<Rightarrow> if s \<noteq> [] then s else ''finished''
                     | None \<Rightarrow> ''finished'')
      in \<lparr>hintsCount = 0,
          scanTime = parseScanTime (case FormatterOptions.scanTime options of
                                      Some t \<Rightarrow> if t \<noteq> 0 then t else 0
                                    | None \<Rightarrow> 0),
          date = FormatterOptions.date options,
          version = FormatterOptions.version options,
          permalink = [],
          categories = [],
          url = target,
          isFinish = (status' = ''finished'' \<or> status' = ''error''),
          status = status',
          id = [],
          isScanner = (case FormatterOptions.isScanner options of Some b \<Rightarrow> b | None \<Rightarrow> False),
          percentage = 0,
          showError = (status' = ''error''),
          cache = Map.empty,
          categoryStore = []\<rparr>)"

definition AnalysisResult_getCategoryByName ::
    "string \<Rightarrow> AnalysisResult \<Rightarrow> ref option \<times> AnalysisResult" where
  "AnalysisResult_getCategoryByName name' a =
     (let lowerCaseName = toLowerCase name'
      in case cache a lowerCaseName of
           Some category' \<Rightarrow> (Some category', a)
         | None \<Rightarrow>
             (case find (\<lambda>cat. toLowerCase (CategoryResult.name (categoryStore a ! cat)) = lowerCaseName)
                        (categories a) of
                Some category' \<Rightarrow> (Some category', a\<lparr>cache := (cache a)(lowerCaseName \<mapsto> category')\<rparr>)
              | None \<Rightarrow> (None, a)))"

definition AnalysisResult_addProblem ::
    "Config \<Rightarrow> Problem \<Rightarrow> string option \<Rightarrow> AnalysisResult \<Rightarrow> exception option \<times> AnalysisResult" where
  "AnalysisResult_addProblem cfg problem language a =
     (let categoryName = category problem;
          (found, a1) = AnalysisResult_getCategoryByName categoryName a
      in case (case found of
                 Some c \<Rightarrow> Inr (c, a1)
               | None \<Rightarrow>
                   (case CategoryResult_new cfg categoryName (url a1) (isScanner a1) language of
                      Inl e \<Rightarrow> Inl e
                    | Inr new \<Rightarrow>
                        Inr (length (categoryStore a1),
                             a1\<lparr>categoryStore := categoryStore a1 @ [new],
                                categories := categories a1 @ [length (categoryStore a1)]\<rparr>))) of
           Inl e \<Rightarrow> (Some e, a1)
         | Inr (category', a2) \<Rightarrow>
             (let a3 = (if severity problem = error \<or> severity problem = warning
                        then a2\<lparr>hintsCount := hintsCount a2 + 1\<rparr> else a2);
                  (thrown, c) = CategoryResult_addProblem cfg problem (categoryStore a3 ! category')
              in (thrown, a3\<lparr>categoryStore := (categoryStore a3)[category' := c]\<rparr>)))"

definition AnalysisResult_addCategory ::
    "Config \<Rightarrow> string \<Rightarrow> string option \<Rightarrow> AnalysisResult \<Rightarrow> exception option \<times> AnalysisResult" where
  "AnalysisResult_addCategory cfg categoryName language a =
     (case AnalysisResult_getCategoryByName categoryName a of
        (Some category', a1) \<Rightarrow> (None, a1)
      | (None, a1) \<Rightarrow>
          (case CategoryResult_new cfg categoryName (url a1) (isScanner a1) language of
             Inl e \<Rightarrow> (Some e, a1)
           | Inr new \<Rightarrow>
               (None, a1\<lparr>categoryStore := categoryStore a1 @ [new],
                         categories := categories a1 @ [length (categoryStore a1)]\<rparr>)))"

definition AnalysisResult_removeCategory :: "string \<Rightarrow> AnalysisResult \<Rightarrow> AnalysisResult" where
  "AnalysisResult_removeCategory categoryName a =
     (let name' = toLowerCase categoryName
      in case AnalysisResult_getCategoryByName name' a of
           (None, a1) \<Rightarrow> a1
         | (Some category', a1) \<Rightarrow>
             (let a2 = a1\<lparr>hintsCount := hintsCount a1
                                        - CategoryResult.hintsCount (categoryStore a1 ! category')\<rparr>;
                  index = indexOf (categories a2) category';
                  a3 = a2\<lparr>categories := array_splice index 1 (categories a2)\<rparr>
              in a3\<lparr>cache := (cache a3)(name' := None)\<rparr>))"

section \<open>Sequences of calls\<close>

text \<open>
  The public methods of a category. A call gives the exception, if it throws, and the
  category as it leaves it; a returned reference is dropped. A sequence of calls goes on
  after a call that throws, as under a caller that catches: the state after a sequence that
  an exception ends is the state after the calls up to there. \<open>CategoryResult_returns\<close>
  says that no call of the sequence throws.
\<close>

datatype CategoryCall =
    GetHintByName string
  | AddHint string string
  | CategoryAddProblem Problem

fun CategoryResult_call ::
    "Config \<Rightarrow> CategoryCall \<Rightarrow> CategoryResult \<Rightarrow> exception option \<times> CategoryResult" where
  "CategoryResult_call cfg (GetHintByName n) c = (None, snd (CategoryResult_getHintByName n c))"
| "CategoryResult_call cfg (AddHint n s) c =
     (case CategoryResult_addHint cfg n s c of
        (Inl e, c') \<Rightarrow> (Some e, c')
      | (Inr h, c') \<Rightarrow> (None, c'))"
| "CategoryResult_call cfg (CategoryAddProblem p) c = CategoryResult_addProblem cfg p c"

fun CategoryResult_calls :: "Config \<Rightarrow> CategoryCall list \<Rightarrow> CategoryResult \<Rightarrow> CategoryResult" where
  "CategoryResult_calls cfg [] c = c"
| "CategoryResult_calls cfg (x # xs) c =
     CategoryResult_calls cfg xs (snd (CategoryResult_call cfg x c))"

fun CategoryResult_returns :: "Config \<Rightarrow> CategoryCall list \<Rightarrow> CategoryResult \<Rightarrow> bool" where
  "CategoryResult_returns cfg [] c = True"
| "CategoryResult_returns cfg (x # xs) c =
     (fst (CategoryResult_call cfg x c) = None \<and>
      CategoryResult_returns cfg xs (snd (CategoryResult_call cfg x c)))"

text \<open>The public methods of the analysis result, and a sequence of calls on it, in the
  same way.\<close>

datatype AnalysisCall =
    GetCategoryByName string
  | AddProblem Problem "string option"
  | AddCategory string "string option"
  | RemoveCategory string

fun AnalysisResult_call ::
    "Config \<Rightarrow> AnalysisCall \<Rightarrow> AnalysisResult \<Rightarrow> exception option \<times> AnalysisResult" where
  "AnalysisResult_call cfg (GetCategoryByName n) a = (None, snd (AnalysisResult_getCategoryByName n a))"
| "AnalysisResult_call cfg (AddProblem p l) a = AnalysisResult_addProblem cfg p l a"
| "AnalysisResult_call cfg (AddCategory n l) a = AnalysisResult_addCategory cfg n l a"
| "AnalysisResult_call cfg (RemoveCategory n) a = (None, AnalysisResult_removeCategory n a)"

fun AnalysisResult_calls :: "Config \<Rightarrow> AnalysisCall list \<Rightarrow> AnalysisResult \<Rightarrow> AnalysisResult" where
  "AnalysisResult_calls cfg [] a = a"
| "AnalysisResult_calls cfg (x # xs) a =
     AnalysisResult_calls cfg xs (snd (AnalysisResult_call cfg x a))"

fun AnalysisResult_returns :: "Config \<Rightarrow> AnalysisCall list \<Rightarrow> AnalysisResult \<Rightarrow> bool" where
  "AnalysisResult_returns cfg [] a = True"
| "AnalysisResult_returns cfg (x # xs) a =
     (fst (AnalysisResult_call cfg x a) = None \<and>
      AnalysisResult_returns cfg xs (snd (AnalysisResult_call cfg x a)))"

section \<open>Definitions for the properties\<close>

text \<open>A sequence of \<open>addProblem\<close> calls on one hint.\<close>

fun HintResult_addProblems :: "Problem list \<Rightarrow> HintResult \<Rightarrow> HintResult" where
  "HintResult_addProblems [] h = h"
| "HintResult_addProblems (p # ps) h = HintResult_addProblems ps (HintResult_addProblem p h)"

text \<open>A configuration to run the code on: one third-party service whose link carries the
  \<open>%URL%\<close> placeholder, one category image, and category names localised to themselves.\<close>

definition example_services :: "string \<rightharpoonup> ThirdPartyInfo" where
  "example_services =
     [''ssllabs'' \<mapsto>
        \<lparr>logo = \<lparr>ThirdPartyLogo.name = ''SSL Labs'', url = ''/images/ssllabs.png'',
                 alt = ''SSL Labs''\<rparr>,
         link = ''https://www.ssllabs.com/ssltest/analyze.html?d=%URL%'',
         details = None\<rparr>]"

definition example_config :: Config where
  "example_config =
     \<lparr>thirdPartyServices = example_services,
      categoryImages = [''security'' \<mapsto> ''/images/security.svg''],
      getCategoryName = (\<lambda>key language. key)\<rparr>"

definition example_options :: FormatterOptions where
  "example_options =
     \<lparr>FormatterOptions.status = None, scanTime = None, date = None, version = None,
      isScanner = None\<rparr>"

text \<open>
  The elapsed time as the specification words it: \<open>mod\<close> on non-negative numbers,
  minutes and seconds on two digits, the hours on at least two digits and only when
  positive.
\<close>

definition mod_spec :: "rat \<Rightarrow> rat \<Rightarrow> rat" where
  "mod_spec x m = x - m * of_int \<lfloor>x / m\<rfloor>"

definition two_digits :: "nat \<Rightarrow> string" where
  "two_digits n = (if n < 10 then CHR ''0'' # decimal n else decimal n)"

definition elapsedDisplay_spec :: "rat \<Rightarrow> string" where
  "elapsedDisplay_spec t =
     (let seconds = nat \<lfloor>mod_spec (t / 1000) 60\<rfloor>;
          minutes = nat \<lfloor>mod_spec (t / 1000 / 60) 60\<rfloor>;
          hours = nat \<lfloor>t / 1000 / 3600\<rfloor>
      in (if hours > 0 then two_digits hours @ '':'' else []) @
         two_digits minutes @ '':'' @ two_digits seconds)"

text \<open>A problem that a category counts, the counted problems of the hints \<open>hs\<close> in a store,
  and the problems that a category holds, through \<open>hints\<close> and \<open>passed\<close>.\<close>

definition counted :: "Problem \<Rightarrow> bool" where
  "counted p \<longleftrightarrow> severity p \<noteq> off \<and> severity p \<noteq> default"

definition counted_in :: "HintResult list \<Rightarrow> ref list \<Rightarrow> int" where
  "counted_in st hs = (\<Sum>h\<leftarrow>hs. int (length (filter counted (problems (st ! h)))))"

definition CategoryResult_problems :: "CategoryResult \<Rightarrow> Problem list" where
  "CategoryResult_problems c =
     concat (map (\<lambda>h. problems (hintStore c ! h)) (hints c @ passed c))"

text \<open>
  The invariant of a category: its references are valid and distinct, every cache entry
  leads from a lower-cased name to a hint of \<open>hints\<close> with that name, and \<open>hintsCount\<close> is
  the number of counted problems held.
\<close>

definition CategoryResult_inv :: "CategoryResult \<Rightarrow> bool" where
  "CategoryResult_inv c \<longleftrightarrow>
     (\<forall>h \<in> set (hints c @ passed c). h < length (hintStore c)) \<and>
     distinct (hints c @ passed c) \<and>
     (\<forall>k h. CategoryResult.cache c k = Some h \<longrightarrow>
        h \<in> set (hints c) \<and> toLowerCase (HintResult.name (hintStore c ! h)) = k) \<and>
     CategoryResult.hintsCount c = counted_in (hintStore c) (hints c @ passed c)"

text \<open>
  The invariant of the analysis result: the references in \<open>categories\<close> are valid and
  lead to categories that satisfy their invariant, no two of them have the same
  lower-cased name, and every cache entry leads from a lower-cased name to a category of
  \<open>categories\<close> with that name. \<open>category_sum\<close> is the sum of \<open>hintsCount\<close> over
  categories.
\<close>

definition category_sum :: "CategoryResult list \<Rightarrow> ref list \<Rightarrow> int" where
  "category_sum st cs = (\<Sum>c\<leftarrow>cs. CategoryResult.hintsCount (st ! c))"

definition AnalysisResult_inv :: "AnalysisResult \<Rightarrow> bool" where
  "AnalysisResult_inv a \<longleftrightarrow>
     (\<forall>c \<in> set (categories a).
        c < length (categoryStore a) \<and> CategoryResult_inv (categoryStore a ! c)) \<and>
     distinct (map (\<lambda>c. toLowerCase (CategoryResult.name (categoryStore a ! c))) (categories a)) \<and>
     (\<forall>k c. cache a k = Some c \<longrightarrow>
        c \<in> set (categories a) \<and> toLowerCase (CategoryResult.name (categoryStore a ! c)) = k)"

text \<open>
  The severities that the root and a category treat alike: both count \<open>warning\<close> and
  \<open>error\<close>, neither counts \<open>off\<close> and \<open>default\<close>. A category alone counts
  \<open>information\<close> and \<open>hint\<close>. \<open>counted_alike\<close> holds of a call that adds no problem of
  these two.
\<close>

definition alike :: "Severity \<Rightarrow> bool" where
  "alike s \<longleftrightarrow> s \<noteq> information \<and> s \<noteq> hint"

text \<open>By how much the sum over the categories exceeds the root's \<open>hintsCount\<close>.\<close>

definition count_gap :: "AnalysisResult \<Rightarrow> int" where
  "count_gap a = category_sum (categoryStore a) (categories a) - hintsCount a"

fun counted_alike :: "AnalysisCall \<Rightarrow> bool" where
  "counted_alike (AddProblem p l) = alike (severity p)"
| "counted_alike (GetCategoryByName n) = True"
| "counted_alike (AddCategory n l) = True"
| "counted_alike (RemoveCategory n) = True"

text \<open>Problems, sequences of calls and the results they give, to run the code on.\<close>

definition example_problem :: "string \<Rightarrow> string \<Rightarrow> Severity \<Rightarrow> Problem" where
  "example_problem h c s = \<lparr>hintId = h, category = c, severity = s, message = ''message''\<rparr>"

definition example_calls :: "AnalysisCall list" where
  "example_calls =
     [AddProblem (example_problem ''no-disallowed-headers'' ''Security'' error) None,
      AddProblem (example_problem ''No-Disallowed-Headers'' ''security'' off) None,
      AddProblem (example_problem ''sri'' ''SECURITY'' warning) None,
      AddProblem (example_problem ''http-cache'' ''performance'' warning) None,
      RemoveCategory ''Performance'']"

definition example_result :: AnalysisResult where
  "example_result = AnalysisResult_calls example_config example_calls
     (AnalysisResult_new ''example.com'' example_options)"

definition example_new_category :: CategoryResult where
  "example_new_category =
     \<lparr>CategoryResult.hintsCount = 0, passed = [], hints = [],
      CategoryResult.name = ''security'', localizedName = ''security'',
      image = Own ''images/security.svg'', CategoryResult.status = ''finished'',
      CategoryResult.cache = Map.empty, CategoryResult.url = ''example.com'',
      CategoryResult.isScanner = False, hintStore = []\<rparr>"

definition example_category_calls :: "CategoryCall list" where
  "example_category_calls =
     [AddHint ''sri'' ''pass'',
      CategoryAddProblem (example_problem ''no-disallowed-headers'' ''security'' error)]"

definition example_category :: CategoryResult where
  "example_category = CategoryResult_calls example_config example_category_calls
     example_new_category"

definition example_calls2 :: "AnalysisCall list" where
  "example_calls2 =
     [AddCategory ''Security'' None,
      AddProblem (example_problem ''http-cache'' ''Performance'' warning) None,
      GetCategoryByName ''SECURITY'',
      RemoveCategory ''performance'']"

definition example_result2 :: AnalysisResult where
  "example_result2 = AnalysisResult_calls example_config example_calls2
     (AnalysisResult_new ''example.com'' example_options)"

definition example_problems3 :: "Problem list" where
  "example_problems3 =
     [example_problem ''http-cache'' ''Performance'' error,
      example_problem ''http-compression'' ''performance'' warning,
      example_problem ''HTTP-Cache'' ''PERFORMANCE'' warning]"

definition example_security_twice :: AnalysisResult where
  "example_security_twice = AnalysisResult_calls example_config
     [AddCategory ''Security'' None, AddCategory ''Security'' None]
     (AnalysisResult_new ''example.com'' example_options)"

definition example_new_hint :: HintResult where
  "example_new_hint =
     \<lparr>HintResult.status = ''error'', count = 0, problems = [], HintResult.name = ''sri'',
      thirdPartyInfo = None, hasDoc = True\<rparr>"

definition example_result_hint :: AnalysisResult where
  "example_result_hint = AnalysisResult_calls example_config
     [AddProblem (example_problem ''sri'' ''security'' hint) None]
     (AnalysisResult_new ''example.com'' example_options)"

definition example_result_information :: AnalysisResult where
  "example_result_information = AnalysisResult_calls example_config
     [AddCategory ''security'' None,
      AddProblem (example_problem ''sri'' ''security'' information) None,
      RemoveCategory ''security'']
     (AnalysisResult_new ''example.com'' example_options)"

section \<open>The examples\<close>

lemma toLowerCase_examples:
  "toLowerCase ''Performance'' = ''performance''"
  "toLowerCase ''HTTP-Cache'' = ''http-cache''"
  "toLowerCase ''Security'' = ''security''"
  "toLowerCase ''security'' = ''security''"
  "toLowerCase ''SECURITY'' = ''security''"
  by code_simp+

lemma toLowerCase_examples2:
  "toLowerCase ''Accessibility'' = ''accessibility''"
  "toLowerCase ''PERFORMANCE'' = ''performance''"
  "toLowerCase ''performance'' = ''performance''"
  by code_simp+

lemma example_new_category:
  "CategoryResult_new example_config ''security'' ''example.com'' False None
     = Inr example_new_category"
  by (simp add: CategoryResult_new_def example_new_category_def example_config_def
      getProperty_def Let_def substr1_def toLowerCase_examples)

lemma example_new_hint:
  "HintResult_new example_config ''sri'' ''error'' ''example.com'' False = Inr example_new_hint"
  by (simp add: HintResult_new_def example_new_hint_def example_config_def example_services_def
      getProperty_def objectPrototypeKeys_def hintsWithoutDocs_def split_first_def Let_def)

section \<open>The elapsed time\<close>

lemma decimal_not_Nil: "decimal n \<noteq> []"
  by (subst decimal.simps) simp

lemma length_decimal_one: "length (decimal n) = Suc 0 \<longleftrightarrow> n < 10"
proof (cases "n < 10")
  case True
  then show ?thesis by (subst decimal.simps) simp
next
  case False
  have "decimal (n div 10) \<noteq> []" by (rule decimal_not_Nil)
  then have "0 < length (decimal (n div 10))" by simp
  with False show ?thesis by (subst decimal.simps) simp
qed

lemma pad_numToString: "0 \<le> i \<Longrightarrow> pad (numToString i) = two_digits (nat i)"
  by (simp add: pad_def numToString_def two_digits_def decimal_not_Nil length_decimal_one)

lemma js_rem_nonneg: "0 \<le> x \<Longrightarrow> js_rem x 60 = mod_spec x 60"
  by (simp add: js_rem_def mod_spec_def js_trunc_def)

lemma mod_spec_nonneg: "0 \<le> mod_spec x 60"
proof -
  have "of_int \<lfloor>x / 60\<rfloor> \<le> x / 60" by (rule of_int_floor_le)
  then have "60 * of_int \<lfloor>x / 60\<rfloor> \<le> x" by simp
  then show ?thesis by (simp add: mod_spec_def)
qed

lemma parseScanTime_spec:
  "0 \<le> t \<Longrightarrow> parseScanTime t = elapsedDisplay_spec t"
proof -
  assume t: "0 \<le> t"
  have s: "0 \<le> \<lfloor>mod_spec (t / 1000) 60\<rfloor>" using mod_spec_nonneg by simp
  have m: "0 \<le> \<lfloor>mod_spec (t / 1000 / 60) 60\<rfloor>" using mod_spec_nonneg by simp
  have h: "0 \<le> \<lfloor>t / 1000 / 3600\<rfloor>" using t by simp
  have hh: "0 < nat \<lfloor>t / 1000 / 3600\<rfloor> \<longleftrightarrow> 0 < \<lfloor>t / 1000 / 3600\<rfloor>" by simp
  show ?thesis
    unfolding parseScanTime_def elapsedDisplay_spec_def Let_def
    using t by (simp only: js_rem_nonneg pad_numToString [OF s] pad_numToString [OF m] hh
        pad_numToString [OF h] divide_nonneg_nonneg zero_le_numeral append_Nil append_assoc
        if_distrib [of "\<lambda>x. x @ _"] cong: if_cong) 
qed

lemma floor_of_nat_div: "\<lfloor>(of_nat n :: rat) / of_nat k\<rfloor> = int (n div k)"
  by (simp add: floor_divide_of_nat_eq)

lemma floor_mod_spec_of_nat:
  "nat \<lfloor>mod_spec (of_nat n / of_nat k) 60\<rfloor> = (n div k) mod 60"
proof -
  have a: "(of_nat n :: rat) / of_nat k / 60 = of_nat n / of_nat (k * 60)" by simp
  have "mod_spec (of_nat n / of_nat k) 60
      = of_nat n / of_nat k - of_int (60 * \<lfloor>(of_nat n :: rat) / of_nat (k * 60)\<rfloor>)"
    unfolding mod_spec_def a by simp
  then have "\<lfloor>mod_spec (of_nat n / of_nat k) 60\<rfloor>
      = \<lfloor>(of_nat n :: rat) / of_nat k\<rfloor> - 60 * \<lfloor>(of_nat n :: rat) / of_nat (k * 60)\<rfloor>"
    by (simp only: floor_diff_of_int)
  also have "\<dots> = int (n div k) - 60 * int (n div (k * 60))"
    by (simp only: floor_of_nat_div)
  also have "\<dots> = int ((n div k) mod 60)"
  proof -
    have "\<And>x::int. x - 60 * (x div 60) = x mod 60" by presburger
    then show ?thesis by (simp add: div_mult2_eq zmod_int zdiv_int)
  qed
  finally show ?thesis by simp
qed

lemma elapsedDisplay_spec_of_nat:
  "elapsedDisplay_spec (of_nat n) =
     (let seconds = (n div 1000) mod 60;
          minutes = (n div 60000) mod 60;
          hours = n div 3600000
      in (if hours > 0 then two_digits hours @ '':'' else []) @
         two_digits minutes @ '':'' @ two_digits seconds)"
proof -
  have s: "nat \<lfloor>mod_spec (of_nat n / 1000) 60\<rfloor> = (n div 1000) mod 60"
    using floor_mod_spec_of_nat [of n 1000] by simp
  have m: "nat \<lfloor>mod_spec (of_nat n / 1000 / 60) 60\<rfloor> = (n div 60000) mod 60"
    using floor_mod_spec_of_nat [of n 60000] by simp
  have h: "nat \<lfloor>(of_nat n :: rat) / 1000 / 3600\<rfloor> = n div 3600000"
    using floor_of_nat_div [of n 3600000] by simp
  show ?thesis
    unfolding elapsedDisplay_spec_def Let_def s m h by (rule refl)
qed

text \<open>
  C5. For every non-negative scan time in milliseconds, \<open>parseScanTime\<close>, and with it the
  \<open>scanTime\<close> field that the constructor sets, is the display that the specification
  describes: seconds \<open>floor((t/1000) mod 60)\<close>, minutes \<open>floor((t/1000/60) mod 60)\<close>,
  hours \<open>floor(t/1000/3600)\<close> not reduced modulo 24, minutes and seconds on two digits,
  the hours zero-padded to two digits and present only when positive. The witness gives the
  four displays that the specification lists.
\<close>

theorem parseScanTime_elapsedDisplay:
  "0 \<le> t \<Longrightarrow>
   parseScanTime t = elapsedDisplay_spec t \<and>
   AnalysisResult.scanTime
     (AnalysisResult_new target (options\<lparr>FormatterOptions.scanTime := Some t\<rparr>))
     = elapsedDisplay_spec t"
  by (simp add: parseScanTime_spec AnalysisResult_new_def Let_def)

lemma elapsedDisplay_spec_0: "elapsedDisplay_spec 0 = ''00:00''"
  by code_simp

lemma elapsedDisplay_spec_65000: "elapsedDisplay_spec 65000 = ''01:05''"
  by code_simp

lemma elapsedDisplay_spec_3725000: "elapsedDisplay_spec 3725000 = ''01:02:05''"
  by code_simp

lemma elapsedDisplay_spec_90000000: "elapsedDisplay_spec 90000000 = ''25:00:00''"
  by code_simp

theorem parseScanTime_elapsedDisplay_witness:
  "(0::rat) \<le> 0 \<and> parseScanTime 0 = ''00:00'' \<and> parseScanTime 65000 = ''01:05'' \<and>
   parseScanTime 3725000 = ''01:02:05'' \<and> parseScanTime 90000000 = ''25:00:00''"
  using parseScanTime_elapsedDisplay [of 0] parseScanTime_elapsedDisplay [of 65000]
    parseScanTime_elapsedDisplay [of 3725000] parseScanTime_elapsedDisplay [of 90000000]
  by (simp add: elapsedDisplay_spec_0 elapsedDisplay_spec_65000 elapsedDisplay_spec_3725000
      elapsedDisplay_spec_90000000)

section \<open>Hints\<close>

lemma HintResult_addProblems_fields:
  "problems (HintResult_addProblems ps h) = problems h @ ps \<and>
   count (HintResult_addProblems ps h) = count h + int (length ps)"
  by (induction ps arbitrary: h) (simp_all add: HintResult_addProblem_def)

lemma HintResult_new_empty:
  "HintResult_new cfg n s u b = Inr h \<Longrightarrow> problems h = [] \<and> count h = 0"
  by (auto simp: HintResult_new_def Let_def split: property.splits)

text \<open>
  C8. After any sequence of \<open>addProblem\<close> calls on a new hint (one that the constructor
  returned), \<open>problems\<close> is the sequence of the problems added, in call order, and \<open>count\<close>
  is its length; a longer sequence of calls only appends to what a shorter one gave; and on
  any hint at all one call appends the problem and keeps the difference between \<open>count\<close>
  and the length of \<open>problems\<close>.
\<close>

theorem HintResult_count_is_length:
  "HintResult_new cfg n s u b = Inr h0 \<Longrightarrow>
   problems (HintResult_addProblems ps h0) = ps \<and>
   count (HintResult_addProblems ps h0) = int (length ps) \<and>
   count (HintResult_addProblems ps h0)
     = int (length (problems (HintResult_addProblems ps h0))) \<and>
   problems (HintResult_addProblems (ps @ qs) h0)
     = problems (HintResult_addProblems ps h0) @ qs \<and>
   problems (HintResult_addProblem p h) = problems h @ [p] \<and>
   count (HintResult_addProblem p h) - int (length (problems (HintResult_addProblem p h)))
     = count h - int (length (problems h))"
  by (simp add: HintResult_addProblems_fields HintResult_new_empty HintResult_addProblem_def)

theorem HintResult_count_is_length_witness:
  "HintResult_new example_config ''sri'' ''error'' ''example.com'' False = Inr example_new_hint \<and>
   problems (HintResult_addProblems
       [example_problem ''sri'' ''security'' error, example_problem ''sri'' ''security'' off]
       example_new_hint)
     = [example_problem ''sri'' ''security'' error, example_problem ''sri'' ''security'' off] \<and>
   count (HintResult_addProblems
       [example_problem ''sri'' ''security'' error, example_problem ''sri'' ''security'' off]
       example_new_hint) = 2"
  using HintResult_count_is_length [OF example_new_hint,
      where ps = "[example_problem ''sri'' ''security'' error,
        example_problem ''sri'' ''security'' off]" and qs = "[]"
      and p = "example_problem ''sri'' ''security'' error" and h = example_new_hint]
    example_new_hint
  by simp

text \<open>
  C3. The code at an input where the claim fails: a hint \<open>ssllabs/grade\<close> is created for
  the target \<open>example.com\<close>, the table's entry for \<open>ssllabs\<close> has the link
  \<open>https://www.ssllabs.com/ssltest/analyze.html?d=%URL%\<close>. The new hint's link still
  holds the placeholder \<open>%URL%\<close>, while the replacement that the constructor computes
  and drops holds the target.
\<close>

theorem HintResult_new_link_not_substituted:
  "(case HintResult_new example_config ''ssllabs/grade'' ''error'' ''example.com'' True of
      Inl e \<Rightarrow> None
    | Inr h \<Rightarrow> map_option link (thirdPartyInfo h))
     = Some ''https://www.ssllabs.com/ssltest/analyze.html?d=%URL%'' \<and>
   replace ''%URL%'' ''example.com'' ''https://www.ssllabs.com/ssltest/analyze.html?d=%URL%''
     = ''https://www.ssllabs.com/ssltest/analyze.html?d=example.com''"
  by (simp add: HintResult_new_def split_first_def example_config_def example_services_def
      getProperty_def)

text \<open>
  For the rest the constructor does what is said of it: the entry of the base name with,
  outside scanner mode, the logo's URL less its first character, or nothing when the table
  has no such entry; and it throws exactly when the entry is missing and the base name is
  a property that the table inherits.
\<close>

lemma HintResult_new_thirdPartyInfo:
  "HintResult_new cfg n s u b = Inr h \<Longrightarrow>
   thirdPartyInfo h =
     (case thirdPartyServices cfg (split_first n) of
        None \<Rightarrow> None
      | Some e \<Rightarrow> Some (if b then e
                        else e\<lparr>logo := (logo e)\<lparr>ThirdPartyLogo.url := drop 1 (ThirdPartyLogo.url (logo e))\<rparr>\<rparr>))"
  by (auto simp: HintResult_new_def getProperty_def Let_def substr1_def
      split: option.splits if_splits)

lemma HintResult_new_throws:
  "HintResult_new cfg n s u b = Inl e \<longleftrightarrow>
   thirdPartyServices cfg (split_first n) = None \<and> split_first n \<in> set objectPrototypeKeys"
  by (cases e) (auto simp: HintResult_new_def getProperty_def Let_def split: option.splits)

text \<open>
  C2. The code at an input where the claim fails: \<open>addHint\<close> is called twice with the
  name \<open>no-vulnerable-libraries\<close> and the status \<open>pass\<close> on a new category. The first
  call returns the hint 0, the second creates and returns another hint 1, \<open>passed\<close> holds
  both, and between the two calls \<open>getHintByName\<close> does not find the hint.
\<close>

theorem CategoryResult_addHint_pass_twice:
  "CategoryResult_new example_config ''security'' ''example.com'' False None
     = Inr example_new_category \<and>
   (let (h1, c1) = CategoryResult_addHint example_config ''no-vulnerable-libraries'' ''pass''
                     example_new_category;
        (h2, c2) = CategoryResult_addHint example_config ''no-vulnerable-libraries'' ''pass'' c1
    in (h1, h2, passed c2, hints c2, fst (CategoryResult_getHintByName ''no-vulnerable-libraries'' c1)))
   = (Inr 0, Inr 1, [0, 1], [], None)"
proof -
  have "(let (h1, c1) = CategoryResult_addHint example_config ''no-vulnerable-libraries'' ''pass''
                     example_new_category;
        (h2, c2) = CategoryResult_addHint example_config ''no-vulnerable-libraries'' ''pass'' c1
    in (h1, h2, passed c2, hints c2, fst (CategoryResult_getHintByName ''no-vulnerable-libraries'' c1)))
   = (Inr 0, Inr 1, [0, 1], [], None)"
    unfolding example_new_category_def by code_simp
  with example_new_category show ?thesis by simp
qed

section \<open>The invariant of a category\<close>

lemma toLowerCaseChar_idem: "toLowerCaseChar (toLowerCaseChar c) = toLowerCaseChar c"
  unfolding toLowerCaseChar_def Let_def by auto

lemma toLowerCase_idem: "toLowerCase (toLowerCase s) = toLowerCase s"
  by (simp add: toLowerCase_def toLowerCaseChar_idem)

lemma counted_in_append: "counted_in st (xs @ ys) = counted_in st xs + counted_in st ys"
  by (simp add: counted_in_def)

lemma counted_in_Cons: "counted_in st (x # xs) = counted_in st [x] + counted_in st xs"
  by (simp add: counted_in_def)

lemma counted_in_cong:
  "(\<And>h. h \<in> set hs \<Longrightarrow> st' ! h = st ! h) \<Longrightarrow> counted_in st' hs = counted_in st hs"
  unfolding counted_in_def by (induction hs) simp_all

lemma counted_in_update:
  "distinct hs \<Longrightarrow> h \<in> set hs \<Longrightarrow> h < length st \<Longrightarrow>
   counted_in (st[h := HintResult_addProblem p (st ! h)]) hs
     = counted_in st hs + (if counted p then 1 else 0)"
proof (induction hs)
  case Nil
  then show ?case by simp
next
  case (Cons x xs)
  show ?case
  proof (cases "x = h")
    case True
    with Cons.prems have "h \<notin> set xs" by simp
    then have "counted_in (st[h := HintResult_addProblem p (st ! h)]) xs = counted_in st xs"
      by (intro counted_in_cong nth_list_update_neq) auto
    with True Cons.prems show ?thesis
      by (simp add: counted_in_def HintResult_addProblem_def)
  next
    case False
    with Cons.prems have "h \<in> set xs" "distinct xs" by auto
    with Cons.IH Cons.prems have
      "counted_in (st[h := HintResult_addProblem p (st ! h)]) xs
         = counted_in st xs + (if counted p then 1 else 0)" by simp
    with False show ?thesis by (simp add: counted_in_def)
  qed
qed

lemma counted_in_problems:
  "int (length (filter counted (CategoryResult_problems c)))
     = counted_in (hintStore c) (hints c @ passed c)"
proof -
  have "\<And>hs. int (length (filter counted (concat (map (\<lambda>h. problems (hintStore c ! h)) hs))))
      = counted_in (hintStore c) hs"
    subgoal for hs by (induction hs) (simp_all add: counted_in_def)
    done
  from this [of "hints c @ passed c"] show ?thesis
    by (simp only: CategoryResult_problems_def)
qed

lemma name_addProblem_nth:
  "HintResult.name (st[h := HintResult_addProblem p (st ! h)] ! h') = HintResult.name (st ! h')"
  by (cases "h' = h"; cases "h < length st")
    (simp_all add: HintResult_addProblem_def list_update_beyond)

lemma getHintByName_Some:
  assumes "CategoryResult_inv c" and "CategoryResult_getHintByName n c = (Some h, c')"
  shows "h \<in> set (hints c) \<and> toLowerCase (HintResult.name (hintStore c ! h)) = toLowerCase n \<and>
         c' = c\<lparr>CategoryResult.cache := (CategoryResult.cache c)(toLowerCase n \<mapsto> h)\<rparr>"
proof (cases "CategoryResult.cache c (toLowerCase n)")
  case None
  with assms(2) have f: "find (\<lambda>hi. toLowerCase (HintResult.name (hintStore c ! hi)) = toLowerCase n) (hints c) = Some h"
    and c': "c' = c\<lparr>CategoryResult.cache := (CategoryResult.cache c)(toLowerCase n \<mapsto> h)\<rparr>"
    by (auto simp: CategoryResult_getHintByName_def Let_def split: option.splits)
  from f have "h \<in> set (hints c) \<and> toLowerCase (HintResult.name (hintStore c ! h)) = toLowerCase n"
    by (auto simp: find_Some_iff)
  with c' show ?thesis by simp
next
  case (Some h0)
  with assms(2) have hh: "h0 = h" and cc: "c' = c"
    by (auto simp: CategoryResult_getHintByName_def Let_def)
  from Some hh have ch: "CategoryResult.cache c (toLowerCase n) = Some h" by simp
  then have "(CategoryResult.cache c)(toLowerCase n \<mapsto> h) = CategoryResult.cache c" by auto
  with assms(1) ch cc show ?thesis by (simp add: CategoryResult_inv_def)
qed

lemma getHintByName_None:
  assumes "CategoryResult_getHintByName n c = (None, c')"
  shows "c' = c \<and> CategoryResult.cache c (toLowerCase n) = None \<and>
         (\<forall>h \<in> set (hints c). toLowerCase (HintResult.name (hintStore c ! h)) \<noteq> toLowerCase n)"
  using assms
  by (auto simp: CategoryResult_getHintByName_def Let_def find_None_iff split: option.splits)

lemma CategoryResult_inv_cache:
  assumes "CategoryResult_inv c" and "h \<in> set (hints c)"
    and "toLowerCase (HintResult.name (hintStore c ! h)) = k"
  shows "CategoryResult_inv (c\<lparr>CategoryResult.cache := (CategoryResult.cache c)(k \<mapsto> h)\<rparr>)"
  using assms by (auto simp: CategoryResult_inv_def)

lemma CategoryResult_inv_getHintByName:
  assumes "CategoryResult_inv c"
  shows "CategoryResult_inv (snd (CategoryResult_getHintByName n c))"
proof (cases "CategoryResult_getHintByName n c")
  case (Pair r c')
  show ?thesis
  proof (cases r)
    case None
    with Pair getHintByName_None [of n c c'] assms show ?thesis by simp
  next
    case (Some h)
    with Pair getHintByName_Some [OF assms, of n h c'] CategoryResult_inv_cache [OF assms, of h]
    show ?thesis by simp
  qed
qed

lemma CategoryResult_inv_push:
  assumes "CategoryResult_inv c" and "problems x = []"
  shows "CategoryResult_inv (c\<lparr>hintStore := hintStore c @ [x], hints := hints c @ [length (hintStore c)]\<rparr>)"
    and "CategoryResult_inv (c\<lparr>hintStore := hintStore c @ [x], passed := passed c @ [length (hintStore c)]\<rparr>)"
proof -
  let ?n = "length (hintStore c)"
  from assms(1) have lt: "\<And>h. h \<in> set (hints c @ passed c) \<Longrightarrow> h < ?n"
    and d: "distinct (hints c @ passed c)"
    and ca: "\<And>k h. CategoryResult.cache c k = Some h \<Longrightarrow>
        h \<in> set (hints c) \<and> toLowerCase (HintResult.name (hintStore c ! h)) = k"
    and cn: "CategoryResult.hintsCount c = counted_in (hintStore c) (hints c @ passed c)"
    by (auto simp: CategoryResult_inv_def)
  from lt have fresh: "?n \<notin> set (hints c @ passed c)" by blast
  have old: "\<And>h. h \<in> set (hints c @ passed c) \<Longrightarrow> (hintStore c @ [x]) ! h = hintStore c ! h"
    using lt by (simp add: nth_append)
  have cnt: "counted_in (hintStore c @ [x]) (hints c @ passed c)
      = counted_in (hintStore c) (hints c @ passed c)"
    by (rule counted_in_cong) (rule old)
  have new: "counted_in (hintStore c @ [x]) [?n] = 0"
    using assms(2) by (simp add: counted_in_def)
  have cnt1: "counted_in (hintStore c @ [x]) (hints c @ [?n] @ passed c)
      = counted_in (hintStore c) (hints c @ passed c)"
    using cnt new by (simp add: counted_in_append counted_in_Cons [of _ _ "passed c"])
  have cnt2: "counted_in (hintStore c @ [x]) (hints c @ passed c @ [?n])
      = counted_in (hintStore c) (hints c @ passed c)"
    using cnt new by (simp add: counted_in_append)
  have nm: "\<And>k h. CategoryResult.cache c k = Some h \<Longrightarrow>
      toLowerCase (HintResult.name ((hintStore c @ [x]) ! h)) = k"
    using ca old by auto
  show "CategoryResult_inv (c\<lparr>hintStore := hintStore c @ [x], hints := hints c @ [?n]\<rparr>)"
    unfolding CategoryResult_inv_def
    using lt d fresh ca nm cn cnt1 by (auto simp: less_Suc_eq)
  show "CategoryResult_inv (c\<lparr>hintStore := hintStore c @ [x], passed := passed c @ [?n]\<rparr>)"
    unfolding CategoryResult_inv_def
    using lt d fresh ca nm cn cnt2 by (auto simp: less_Suc_eq)
qed

lemma CategoryResult_addProblem_Some:
  assumes "CategoryResult_getHintByName (hintId p) c = (Some h, c1)"
  shows "CategoryResult_addProblem cfg p c =
     (None,
      c1\<lparr>CategoryResult.hintsCount := CategoryResult.hintsCount c1 + (if counted p then 1 else 0),
         hintStore := (hintStore c1)[h := HintResult_addProblem p (hintStore c1 ! h)]\<rparr>)"
  using assms by (simp add: CategoryResult_addProblem_def Let_def counted_def)

lemma CategoryResult_addProblem_None:
  assumes "CategoryResult_getHintByName (hintId p) c = (None, c1)"
    and "HintResult_new cfg (hintId p) (Severity_name (severity p))
           (CategoryResult.url c1) (CategoryResult.isScanner c1) = Inr x"
  shows "CategoryResult_addProblem cfg p c =
     (None,
      c1\<lparr>hintStore := hintStore c1 @ [x], hints := hints c1 @ [length (hintStore c1)]\<rparr>
        \<lparr>CategoryResult.hintsCount := CategoryResult.hintsCount c1 + (if counted p then 1 else 0),
         hintStore := (hintStore c1 @ [x])[length (hintStore c1) := HintResult_addProblem p x]\<rparr>)"
  using assms by (simp add: CategoryResult_addProblem_def Let_def counted_def)

lemma CategoryResult_addProblem_throws:
  assumes "CategoryResult_getHintByName (hintId p) c = (None, c1)"
    and "HintResult_new cfg (hintId p) (Severity_name (severity p))
           (CategoryResult.url c1) (CategoryResult.isScanner c1) = Inl e"
  shows "CategoryResult_addProblem cfg p c = (Some e, c1)"
  using assms by (simp add: CategoryResult_addProblem_def Let_def)

lemma CategoryResult_inv_bump:
  assumes "CategoryResult_inv c" and "h \<in> set (hints c)"
  shows "CategoryResult_inv
     (c\<lparr>CategoryResult.hintsCount := CategoryResult.hintsCount c + (if counted p then 1 else 0),
        hintStore := (hintStore c)[h := HintResult_addProblem p (hintStore c ! h)]\<rparr>)"
proof -
  from assms have lt: "h < length (hintStore c)" and d: "distinct (hints c @ passed c)"
    and hin: "h \<in> set (hints c @ passed c)"
    and cn: "CategoryResult.hintsCount c = counted_in (hintStore c) (hints c @ passed c)"
    by (auto simp: CategoryResult_inv_def)
  have "counted_in ((hintStore c)[h := HintResult_addProblem p (hintStore c ! h)]) (hints c @ passed c)
      = counted_in (hintStore c) (hints c @ passed c) + (if counted p then 1 else 0)"
    using d hin lt by (rule counted_in_update)
  with assms(1) cn show ?thesis
    unfolding CategoryResult_inv_def by (simp add: name_addProblem_nth)
qed

lemma HintResult_new_problems: "HintResult_new cfg n s u b = Inr x \<Longrightarrow> problems x = []"
  by (auto simp: HintResult_new_def Let_def split: property.splits)

lemma HintResult_new_name: "HintResult_new cfg n s u b = Inr x \<Longrightarrow> HintResult.name x = n"
  by (auto simp: HintResult_new_def Let_def split: property.splits)

lemma CategoryResult_inv_addProblem:
  assumes "CategoryResult_inv c"
  shows "CategoryResult_inv (snd (CategoryResult_addProblem cfg p c))"
proof (cases "CategoryResult_getHintByName (hintId p) c")
  case (Pair r c1)
  show ?thesis
  proof (cases r)
    case None
    with Pair getHintByName_None [of "hintId p" c c1] have c1: "c1 = c" by simp
    show ?thesis
    proof (cases "HintResult_new cfg (hintId p) (Severity_name (severity p))
        (CategoryResult.url c) (CategoryResult.isScanner c)")
      case (Inl e)
      with Pair None c1 assms show ?thesis by (simp add: CategoryResult_addProblem_throws)
    next
      case (Inr x)
      let ?c2 = "c\<lparr>hintStore := hintStore c @ [x], hints := hints c @ [length (hintStore c)]\<rparr>"
      have i2: "CategoryResult_inv ?c2"
        using assms HintResult_new_problems [OF Inr] by (rule CategoryResult_inv_push)
      have "CategoryResult_inv
        (?c2\<lparr>CategoryResult.hintsCount := CategoryResult.hintsCount ?c2 + (if counted p then 1 else 0),
          hintStore := (hintStore ?c2)[length (hintStore c) := HintResult_addProblem p (hintStore ?c2 ! length (hintStore c))]\<rparr>)"
        using i2 by (rule CategoryResult_inv_bump) simp
      with Pair None c1 Inr show ?thesis
        by (simp add: CategoryResult_addProblem_None)
    qed
  next
    case (Some h)
    with Pair assms have g: "h \<in> set (hints c)"
      "toLowerCase (HintResult.name (hintStore c ! h)) = toLowerCase (hintId p)"
      "c1 = c\<lparr>CategoryResult.cache := (CategoryResult.cache c)(toLowerCase (hintId p) \<mapsto> h)\<rparr>"
      using getHintByName_Some [of c "hintId p" h c1] by auto
    have i1: "CategoryResult_inv c1"
      unfolding g(3) using assms g(1) g(2) by (rule CategoryResult_inv_cache)
    have "h \<in> set (hints c1)" using g by simp
    with i1 have "CategoryResult_inv
     (c1\<lparr>CategoryResult.hintsCount := CategoryResult.hintsCount c1 + (if counted p then 1 else 0),
        hintStore := (hintStore c1)[h := HintResult_addProblem p (hintStore c1 ! h)]\<rparr>)"
      by (rule CategoryResult_inv_bump)
    with Pair Some show ?thesis by (simp add: CategoryResult_addProblem_Some)
  qed
qed

lemma CategoryResult_inv_addHint:
  assumes "CategoryResult_inv c"
  shows "CategoryResult_inv (snd (CategoryResult_addHint cfg n s c))"
proof (cases "CategoryResult_getHintByName n c")
  case (Pair r c1)
  show ?thesis
  proof (cases r)
    case None
    with Pair getHintByName_None [of n c c1] have c1: "c1 = c" by simp
    show ?thesis
    proof (cases "HintResult_new cfg n s (CategoryResult.url c) (CategoryResult.isScanner c)")
      case (Inl e)
      with Pair None c1 assms show ?thesis by (simp add: CategoryResult_addHint_def)
    next
      case (Inr x)
      from assms HintResult_new_problems [OF Inr] have
        "CategoryResult_inv (c\<lparr>hintStore := hintStore c @ [x],
            hints := hints c @ [length (hintStore c)]\<rparr>)"
        "CategoryResult_inv (c\<lparr>hintStore := hintStore c @ [x],
            passed := passed c @ [length (hintStore c)]\<rparr>)"
        by (rule CategoryResult_inv_push)+
      with Pair None c1 Inr show ?thesis
        by (cases "s = ''pass''") (auto simp add: CategoryResult_addHint_def Let_def)
    qed
  next
    case (Some h)
    with Pair CategoryResult_inv_getHintByName [OF assms, of n] show ?thesis
      by (simp add: CategoryResult_addHint_def)
  qed
qed

lemma CategoryResult_inv_new:
  "CategoryResult_new cfg n u b l = Inr c \<Longrightarrow> CategoryResult_inv c"
  by (auto simp: CategoryResult_inv_def CategoryResult_new_def Let_def counted_in_def
      split: property.splits if_splits)

lemma CategoryResult_inv_call:
  "CategoryResult_inv c \<Longrightarrow> CategoryResult_inv (snd (CategoryResult_call cfg x c))"
proof (cases x)
  case (GetHintByName n)
  assume "CategoryResult_inv c"
  with GetHintByName show ?thesis by (simp add: CategoryResult_inv_getHintByName)
next
  case (AddHint n s)
  assume "CategoryResult_inv c"
  then have "CategoryResult_inv (snd (CategoryResult_addHint cfg n s c))"
    by (rule CategoryResult_inv_addHint)
  with AddHint show ?thesis
    by (cases "CategoryResult_addHint cfg n s c") (auto split: sum.splits)
next
  case (CategoryAddProblem p)
  assume "CategoryResult_inv c"
  with CategoryAddProblem show ?thesis by (simp add: CategoryResult_inv_addProblem)
qed

lemma CategoryResult_inv_calls:
  "CategoryResult_inv c \<Longrightarrow> CategoryResult_inv (CategoryResult_calls cfg xs c)"
  by (induction xs arbitrary: c) (simp_all add: CategoryResult_inv_call)

lemma find_snoc:
  "\<forall>y \<in> set xs. \<not> P y \<Longrightarrow> P x \<Longrightarrow> find P (xs @ [x]) = Some x"
  by (induction xs) simp_all

text \<open>Outside the status \<open>pass\<close> a second \<open>addHint\<close> for the name, in any case of
  letters, returns the hint of the first and creates nothing.\<close>

lemma CategoryResult_addHint_again:
  assumes "CategoryResult_inv c" and "s \<noteq> ''pass''" and "toLowerCase m = toLowerCase n"
    and "CategoryResult_addHint cfg n s c = (Inr h, c1)"
  shows "\<exists>c2. CategoryResult_addHint cfg m s' c1 = (Inr h, c2) \<and> hints c2 = hints c1 \<and>
           passed c2 = passed c1 \<and> hintStore c2 = hintStore c1"
proof -
  have "\<exists>c2. CategoryResult_getHintByName m c1 = (Some h, c2) \<and> hints c2 = hints c1 \<and>
           passed c2 = passed c1 \<and> hintStore c2 = hintStore c1"
  proof (cases "CategoryResult_getHintByName n c")
    case (Pair r c')
    show ?thesis
    proof (cases r)
      case (Some h0)
      with Pair assms(4) have hh: "h = h0" "c1 = c'"
        by (simp_all add: CategoryResult_addHint_def)
      from getHintByName_Some [OF assms(1), of n h0 c'] Pair Some
      have "c' = c\<lparr>CategoryResult.cache := (CategoryResult.cache c)(toLowerCase n \<mapsto> h0)\<rparr>"
        by simp
      with hh assms(3) have "CategoryResult.cache c1 (toLowerCase m) = Some h" by simp
      then show ?thesis by (simp add: CategoryResult_getHintByName_def Let_def)
    next
      case None
      let ?len = "length (hintStore c)"
      from Pair None getHintByName_None [of n c c'] have c': "c' = c"
        and miss: "CategoryResult.cache c (toLowerCase n) = None"
        and no: "\<forall>h \<in> set (hints c).
            toLowerCase (HintResult.name (hintStore c ! h)) \<noteq> toLowerCase n"
        by simp_all
      from Pair None c' assms(2,4) obtain x where
        x: "HintResult_new cfg n s (CategoryResult.url c) (CategoryResult.isScanner c) = Inr x"
        and h: "h = ?len"
        and c1: "c1 = c\<lparr>hintStore := hintStore c @ [x], hints := hints c @ [?len]\<rparr>"
        by (auto simp: CategoryResult_addHint_def Let_def split: sum.splits)
      from assms(1) have lt: "\<forall>h \<in> set (hints c). h < ?len"
        by (simp add: CategoryResult_inv_def)
      have old: "\<forall>y \<in> set (hints c).
          \<not> toLowerCase (HintResult.name ((hintStore c @ [x]) ! y)) = toLowerCase m"
        using no lt assms(3) by (simp add: nth_append)
      have new: "toLowerCase (HintResult.name ((hintStore c @ [x]) ! ?len)) = toLowerCase m"
        using assms(3) HintResult_new_name [OF x] by simp
      have "find (\<lambda>hi. toLowerCase (HintResult.name ((hintStore c @ [x]) ! hi)) = toLowerCase m)
          (hints c @ [?len]) = Some ?len"
        using old new by (rule find_snoc)
      with miss assms(3) show ?thesis
        by (simp add: CategoryResult_getHintByName_def Let_def c1 h)
    qed
  qed
  then show ?thesis by (auto simp: CategoryResult_addHint_def)
qed

section \<open>The invariant of the analysis result\<close>

lemma CategoryResult_addProblem_name:
  "CategoryResult.name (snd (CategoryResult_addProblem cfg p c)) = CategoryResult.name c"
  by (simp add: CategoryResult_addProblem_def CategoryResult_getHintByName_def Let_def
      split: option.splits sum.splits)

lemma CategoryResult_addProblem_hintsCount:
  "CategoryResult.hintsCount (snd (CategoryResult_addProblem cfg p c))
     = CategoryResult.hintsCount c
       + (if fst (CategoryResult_addProblem cfg p c) = None \<and> counted p then 1 else 0)"
  by (simp add: CategoryResult_addProblem_def CategoryResult_getHintByName_def Let_def counted_def
      split: option.splits sum.splits)

lemma counted_iff_error_warning:
  "alike (severity p) \<Longrightarrow> counted p \<longleftrightarrow> severity p = error \<or> severity p = warning"
  by (cases "severity p") (simp_all add: counted_def alike_def)

lemma counted_not_alike:
  "\<not> alike (severity p) \<Longrightarrow> counted p \<and> severity p \<noteq> error \<and> severity p \<noteq> warning"
  by (cases "severity p") (simp_all add: counted_def alike_def)

lemma category_sum_append: "category_sum st (xs @ ys) = category_sum st xs + category_sum st ys"
  by (simp add: category_sum_def)

lemma category_sum_cong:
  "(\<And>c. c \<in> set cs \<Longrightarrow> st' ! c = st ! c) \<Longrightarrow> category_sum st' cs = category_sum st cs"
  unfolding category_sum_def by (induction cs) simp_all

lemma category_sum_update:
  "distinct cs \<Longrightarrow> c \<in> set cs \<Longrightarrow> c < length st \<Longrightarrow>
   category_sum (st[c := x]) cs
     = category_sum st cs - CategoryResult.hintsCount (st ! c) + CategoryResult.hintsCount x"
proof (induction cs)
  case Nil
  then show ?case by simp
next
  case (Cons y ys)
  show ?case
  proof (cases "y = c")
    case True
    with Cons.prems have "c \<notin> set ys" by simp
    then have "category_sum (st[c := x]) ys = category_sum st ys"
      by (intro category_sum_cong nth_list_update_neq) auto
    with True Cons.prems show ?thesis by (simp add: category_sum_def)
  next
    case False
    with Cons.prems have "c \<in> set ys" "distinct ys" by auto
    with Cons.IH Cons.prems have
      "category_sum (st[c := x]) ys
         = category_sum st ys - CategoryResult.hintsCount (st ! c) + CategoryResult.hintsCount x"
      by simp
    with False show ?thesis by (simp add: category_sum_def)
  qed
qed

lemma category_sum_remove1:
  "c \<in> set cs \<Longrightarrow>
   category_sum st (remove1 c cs) = category_sum st cs - CategoryResult.hintsCount (st ! c)"
  unfolding category_sum_def
  using sum_list_map_remove1 [of c cs "\<lambda>c. CategoryResult.hintsCount (st ! c)"] by simp

lemma indexOf_nonneg: "x \<in> set xs \<Longrightarrow> 0 \<le> indexOf xs x"
  by (induction xs) (auto simp: Let_def)

lemma indexOf_lt: "indexOf xs x < int (length xs)"
  by (induction xs) (auto simp: Let_def)

lemma array_splice_Cons:
  "0 \<le> i \<Longrightarrow> array_splice (i + 1) n (y # ys) = y # array_splice i n ys"
  by (simp add: array_splice_def Let_def nat_add_distrib min_def)

lemma array_splice_indexOf:
  "x \<in> set xs \<Longrightarrow> array_splice (indexOf xs x) (Suc 0) xs = remove1 x xs"
proof (induction xs)
  case Nil
  then show ?case by simp
next
  case (Cons y ys)
  show ?case
  proof (cases "y = x")
    case True
    then show ?thesis by (simp add: array_splice_def)
  next
    case False
    with Cons.prems have xin: "x \<in> set ys" by simp
    then have nn: "0 \<le> indexOf ys x" by (rule indexOf_nonneg)
    with False have "indexOf (y # ys) x = indexOf ys x + 1" by (simp add: Let_def)
    with nn Cons.IH [OF xin] False show ?thesis by (simp add: array_splice_Cons)
  qed
qed

lemma category_name_update_nth:
  "CategoryResult.name (st[c := snd (CategoryResult_addProblem cfg p (st ! c))] ! c')
     = CategoryResult.name (st ! c')"
  by (cases "c' = c"; cases "c < length st")
    (simp_all add: CategoryResult_addProblem_name list_update_beyond)

lemma getCategoryByName_Some:
  assumes "AnalysisResult_inv a" and "AnalysisResult_getCategoryByName n a = (Some c, a')"
  shows "c \<in> set (categories a) \<and>
         toLowerCase (CategoryResult.name (categoryStore a ! c)) = toLowerCase n \<and>
         a' = a\<lparr>cache := (cache a)(toLowerCase n \<mapsto> c)\<rparr>"
proof (cases "cache a (toLowerCase n)")
  case None
  with assms(2) have f: "find (\<lambda>cat. toLowerCase (CategoryResult.name (categoryStore a ! cat)) = toLowerCase n)
        (categories a) = Some c"
    and a': "a' = a\<lparr>cache := (cache a)(toLowerCase n \<mapsto> c)\<rparr>"
    by (auto simp: AnalysisResult_getCategoryByName_def Let_def split: option.splits)
  from f have "c \<in> set (categories a) \<and>
      toLowerCase (CategoryResult.name (categoryStore a ! c)) = toLowerCase n"
    by (auto simp: find_Some_iff)
  with a' show ?thesis by simp
next
  case (Some c0)
  with assms(2) have cc: "c0 = c" and aa: "a' = a"
    by (auto simp: AnalysisResult_getCategoryByName_def Let_def)
  from Some cc have ch: "cache a (toLowerCase n) = Some c" by simp
  then have "(cache a)(toLowerCase n \<mapsto> c) = cache a" by auto
  with assms(1) ch aa show ?thesis by (simp add: AnalysisResult_inv_def)
qed

lemma getCategoryByName_None:
  assumes "AnalysisResult_getCategoryByName n a = (None, a')"
  shows "a' = a \<and> cache a (toLowerCase n) = None \<and>
         (\<forall>c \<in> set (categories a).
            toLowerCase (CategoryResult.name (categoryStore a ! c)) \<noteq> toLowerCase n)"
  using assms
  by (auto simp: AnalysisResult_getCategoryByName_def Let_def find_None_iff split: option.splits)

lemma AnalysisResult_inv_cache:
  assumes "AnalysisResult_inv a" and "c \<in> set (categories a)"
    and "toLowerCase (CategoryResult.name (categoryStore a ! c)) = k"
  shows "AnalysisResult_inv (a\<lparr>cache := (cache a)(k \<mapsto> c)\<rparr>)"
  using assms by (auto simp: AnalysisResult_inv_def)

lemma AnalysisResult_inv_getCategoryByName:
  assumes "AnalysisResult_inv a"
  shows "AnalysisResult_inv (snd (AnalysisResult_getCategoryByName n a))"
proof (cases "AnalysisResult_getCategoryByName n a")
  case (Pair r a')
  show ?thesis
  proof (cases r)
    case None
    with Pair getCategoryByName_None [of n a a'] assms show ?thesis by simp
  next
    case (Some c)
    with Pair getCategoryByName_Some [OF assms, of n c a'] AnalysisResult_inv_cache [OF assms, of c]
    show ?thesis by simp
  qed
qed

lemma AnalysisResult_inv_push:
  assumes "AnalysisResult_inv a" and "CategoryResult_inv x"
    and "\<forall>c \<in> set (categories a).
           toLowerCase (CategoryResult.name (categoryStore a ! c)) \<noteq> toLowerCase (CategoryResult.name x)"
  shows "AnalysisResult_inv (a\<lparr>categoryStore := categoryStore a @ [x],
           categories := categories a @ [length (categoryStore a)]\<rparr>)"
proof -
  let ?n = "length (categoryStore a)"
  let ?f = "\<lambda>st c. toLowerCase (CategoryResult.name (st ! c))"
  from assms(1) have lt: "\<And>c. c \<in> set (categories a) \<Longrightarrow> c < ?n"
    and ci: "\<And>c. c \<in> set (categories a) \<Longrightarrow> CategoryResult_inv (categoryStore a ! c)"
    and d: "distinct (map (?f (categoryStore a)) (categories a))"
    and ca: "\<And>k c. cache a k = Some c \<Longrightarrow>
        c \<in> set (categories a) \<and> ?f (categoryStore a) c = k"
    by (auto simp: AnalysisResult_inv_def)
  have old: "\<And>c. c \<in> set (categories a) \<Longrightarrow> (categoryStore a @ [x]) ! c = categoryStore a ! c"
    using lt by (simp add: nth_append)
  have m: "map (?f (categoryStore a @ [x])) (categories a) = map (?f (categoryStore a)) (categories a)"
    using old by simp
  have fresh: "?f (categoryStore a @ [x]) ?n \<notin> set (map (?f (categoryStore a)) (categories a))"
    using assms(3) by auto
  have d': "distinct (map (?f (categoryStore a @ [x])) (categories a @ [?n]))"
    using d fresh by (simp add: m)
  have nm: "\<And>k c. cache a k = Some c \<Longrightarrow> ?f (categoryStore a @ [x]) c = k"
    using ca old by auto
  show ?thesis
    unfolding AnalysisResult_inv_def
    using lt ci old d' ca nm assms(2) by (auto simp: less_Suc_eq)
qed

lemma CategoryResult_new_fields:
  assumes "CategoryResult_new cfg n u b l = Inr c"
  shows "CategoryResult.name c = n" and "CategoryResult.hintsCount c = 0"
  using assms
  by (auto simp: CategoryResult_new_def Let_def split: property.splits if_splits)

lemma AnalysisResult_addCategory_found:
  assumes "AnalysisResult_getCategoryByName n a = (Some c, a1)"
  shows "AnalysisResult_addCategory cfg n l a = (None, a1)"
  using assms by (simp add: AnalysisResult_addCategory_def)

lemma AnalysisResult_addCategory_new:
  assumes "AnalysisResult_getCategoryByName n a = (None, a1)"
    and "CategoryResult_new cfg n (url a1) (isScanner a1) l = Inr x"
  shows "AnalysisResult_addCategory cfg n l a =
     (None, a1\<lparr>categoryStore := categoryStore a1 @ [x],
               categories := categories a1 @ [length (categoryStore a1)]\<rparr>)"
  using assms by (simp add: AnalysisResult_addCategory_def)

lemma AnalysisResult_addCategory_throws:
  assumes "AnalysisResult_getCategoryByName n a = (None, a1)"
    and "CategoryResult_new cfg n (url a1) (isScanner a1) l = Inl e"
  shows "AnalysisResult_addCategory cfg n l a = (Some e, a1)"
  using assms by (simp add: AnalysisResult_addCategory_def)

lemma AnalysisResult_inv_addCategory:
  assumes "AnalysisResult_inv a"
  shows "AnalysisResult_inv (snd (AnalysisResult_addCategory cfg n l a))"
proof (cases "AnalysisResult_getCategoryByName n a")
  case (Pair r a1)
  show ?thesis
  proof (cases r)
    case None
    with Pair getCategoryByName_None [of n a a1] have a1: "a1 = a"
      and no: "\<forall>c \<in> set (categories a).
         toLowerCase (CategoryResult.name (categoryStore a ! c)) \<noteq> toLowerCase n" by simp_all
    show ?thesis
    proof (cases "CategoryResult_new cfg n (url a) (isScanner a) l")
      case (Inl e)
      with Pair None a1 assms show ?thesis by (simp add: AnalysisResult_addCategory_throws)
    next
      case (Inr x)
      have "AnalysisResult_inv (a\<lparr>categoryStore := categoryStore a @ [x],
             categories := categories a @ [length (categoryStore a)]\<rparr>)"
        using assms CategoryResult_inv_new [OF Inr] no
        by (intro AnalysisResult_inv_push) (simp_all add: CategoryResult_new_fields [OF Inr])
      with Pair None a1 Inr show ?thesis by (simp add: AnalysisResult_addCategory_new)
    qed
  next
    case (Some c)
    with Pair AnalysisResult_inv_getCategoryByName [OF assms, of n] show ?thesis
      by (simp add: AnalysisResult_addCategory_found)
  qed
qed

lemma AnalysisResult_inv_bump:
  assumes "AnalysisResult_inv a" and "c \<in> set (categories a)"
  shows "AnalysisResult_inv
     (a\<lparr>hintsCount := k,
        categoryStore := (categoryStore a)
          [c := snd (CategoryResult_addProblem cfg p (categoryStore a ! c))]\<rparr>)"
proof -
  let ?st = "categoryStore a"
  let ?st' = "?st[c := snd (CategoryResult_addProblem cfg p (?st ! c))]"
  from assms have lt: "c < length ?st"
    and ci: "\<And>c. c \<in> set (categories a) \<Longrightarrow> CategoryResult_inv (?st ! c)"
    by (auto simp: AnalysisResult_inv_def)
  have ci': "\<And>c'. c' \<in> set (categories a) \<Longrightarrow> CategoryResult_inv (?st' ! c')"
    subgoal for c'
      using ci [of c'] ci [of c] assms(2) lt
      by (cases "c' = c") (simp_all add: CategoryResult_inv_addProblem)
    done
  show ?thesis
    unfolding AnalysisResult_inv_def
    using assms(1) ci'
    by (simp add: category_name_update_nth AnalysisResult_inv_def)
qed

lemma AnalysisResult_addProblem_Some:
  assumes "AnalysisResult_getCategoryByName (category p) a = (Some c, a1)"
  shows "AnalysisResult_addProblem cfg p l a =
     (fst (CategoryResult_addProblem cfg p (categoryStore a1 ! c)),
      a1\<lparr>hintsCount := hintsCount a1 + (if severity p = error \<or> severity p = warning then 1 else 0),
         categoryStore := (categoryStore a1)
           [c := snd (CategoryResult_addProblem cfg p (categoryStore a1 ! c))]\<rparr>)"
  using assms by (simp add: AnalysisResult_addProblem_def Let_def case_prod_beta)

lemma AnalysisResult_addProblem_None:
  assumes "AnalysisResult_getCategoryByName (category p) a = (None, a1)"
    and "CategoryResult_new cfg (category p) (url a1) (isScanner a1) l = Inr x"
  shows "AnalysisResult_addProblem cfg p l a =
     (fst (CategoryResult_addProblem cfg p x),
      a1\<lparr>categoryStore := categoryStore a1 @ [x],
         categories := categories a1 @ [length (categoryStore a1)]\<rparr>
        \<lparr>hintsCount := hintsCount a1 + (if severity p = error \<or> severity p = warning then 1 else 0),
         categoryStore := (categoryStore a1 @ [x])
           [length (categoryStore a1) := snd (CategoryResult_addProblem cfg p x)]\<rparr>)"
  using assms by (simp add: AnalysisResult_addProblem_def Let_def case_prod_beta)

lemma AnalysisResult_addProblem_throws:
  assumes "AnalysisResult_getCategoryByName (category p) a = (None, a1)"
    and "CategoryResult_new cfg (category p) (url a1) (isScanner a1) l = Inl e"
  shows "AnalysisResult_addProblem cfg p l a = (Some e, a1)"
  using assms by (simp add: AnalysisResult_addProblem_def Let_def)

lemma AnalysisResult_inv_addProblem:
  assumes "AnalysisResult_inv a"
  shows "AnalysisResult_inv (snd (AnalysisResult_addProblem cfg p l a))"
proof (cases "AnalysisResult_getCategoryByName (category p) a")
  case (Pair r a1)
  show ?thesis
  proof (cases r)
    case None
    with Pair getCategoryByName_None [of "category p" a a1] have a1: "a1 = a"
      and no: "\<forall>c \<in> set (categories a).
         toLowerCase (CategoryResult.name (categoryStore a ! c)) \<noteq> toLowerCase (category p)"
      by simp_all
    show ?thesis
    proof (cases "CategoryResult_new cfg (category p) (url a) (isScanner a) l")
      case (Inl e)
      with Pair None a1 assms show ?thesis by (simp add: AnalysisResult_addProblem_throws)
    next
      case (Inr x)
      let ?a2 = "a\<lparr>categoryStore := categoryStore a @ [x],
             categories := categories a @ [length (categoryStore a)]\<rparr>"
      have i2: "AnalysisResult_inv ?a2"
        using assms CategoryResult_inv_new [OF Inr] no
        by (intro AnalysisResult_inv_push) (simp_all add: CategoryResult_new_fields [OF Inr])
      have "AnalysisResult_inv
       (?a2\<lparr>hintsCount := hintsCount a + (if severity p = error \<or> severity p = warning then 1 else 0),
          categoryStore := (categoryStore ?a2)[length (categoryStore a) :=
             snd (CategoryResult_addProblem cfg p (categoryStore ?a2 ! length (categoryStore a)))]\<rparr>)"
        using i2 by (rule AnalysisResult_inv_bump) simp
      with Pair None a1 Inr show ?thesis
        by (simp add: AnalysisResult_addProblem_None)
    qed
  next
    case (Some c)
    with Pair assms have g: "c \<in> set (categories a)"
      "toLowerCase (CategoryResult.name (categoryStore a ! c)) = toLowerCase (category p)"
      "a1 = a\<lparr>cache := (cache a)(toLowerCase (category p) \<mapsto> c)\<rparr>"
      using getCategoryByName_Some [of a "category p" c a1] by auto
    have i1: "AnalysisResult_inv a1"
      unfolding g(3) using assms g(1) g(2) by (rule AnalysisResult_inv_cache)
    have "c \<in> set (categories a1)" using g by simp
    with i1 have "AnalysisResult_inv
     (a1\<lparr>hintsCount := hintsCount a1 + (if severity p = error \<or> severity p = warning then 1 else 0),
        categoryStore := (categoryStore a1)
          [c := snd (CategoryResult_addProblem cfg p (categoryStore a1 ! c))]\<rparr>)"
      by (rule AnalysisResult_inv_bump)
    with Pair Some show ?thesis by (simp add: AnalysisResult_addProblem_Some)
  qed
qed

lemma AnalysisResult_removeCategory_None:
  assumes "AnalysisResult_getCategoryByName (toLowerCase n) a = (None, a1)"
  shows "AnalysisResult_removeCategory n a = a"
  using assms getCategoryByName_None [OF assms]
  by (simp add: AnalysisResult_removeCategory_def Let_def)

lemma AnalysisResult_removeCategory_Some:
  assumes "AnalysisResult_inv a"
    and "AnalysisResult_getCategoryByName (toLowerCase n) a = (Some c, a1)"
  shows "AnalysisResult_removeCategory n a =
     a\<lparr>hintsCount := hintsCount a - CategoryResult.hintsCount (categoryStore a ! c),
       categories := remove1 c (categories a),
       cache := (cache a)(toLowerCase n := None)\<rparr>"
proof -
  from getCategoryByName_Some [OF assms] have cin: "c \<in> set (categories a)"
    and a1: "a1 = a\<lparr>cache := (cache a)(toLowerCase n \<mapsto> c)\<rparr>"
    by (simp_all add: toLowerCase_idem)
  show ?thesis
    using assms(2) cin
    by (simp add: AnalysisResult_removeCategory_def Let_def a1 array_splice_indexOf)
qed

lemma AnalysisResult_inv_remove:
  assumes "AnalysisResult_inv a" and "c \<in> set (categories a)"
    and "toLowerCase (CategoryResult.name (categoryStore a ! c)) = k"
  shows "AnalysisResult_inv
     (a\<lparr>hintsCount := hintsCount a - CategoryResult.hintsCount (categoryStore a ! c),
       categories := remove1 c (categories a),
       cache := (cache a)(k := None)\<rparr>)"
proof -
  let ?f = "\<lambda>c. toLowerCase (CategoryResult.name (categoryStore a ! c))"
  from assms(1) have lt: "\<And>c. c \<in> set (categories a) \<Longrightarrow>
        c < length (categoryStore a) \<and> CategoryResult_inv (categoryStore a ! c)"
    and d: "distinct (map ?f (categories a))"
    and ca: "\<And>k c. cache a k = Some c \<Longrightarrow> c \<in> set (categories a) \<and> ?f c = k"
    by (auto simp: AnalysisResult_inv_def)
  from d have dc: "distinct (categories a)" by (simp add: distinct_map)
  then have r: "remove1 c (categories a) = filter (\<lambda>x. x \<noteq> c) (categories a)"
    by (simp add: distinct_remove1_removeAll removeAll_filter_not_eq) metis
  have d': "distinct (map ?f (remove1 c (categories a)))"
    unfolding r using d by (rule distinct_map_filter)
  have sub: "\<And>x. x \<in> set (remove1 c (categories a)) \<Longrightarrow> x \<in> set (categories a)"
    using set_remove1_subset [of c "categories a"] by auto
  have ca': "\<And>k' c'. k' \<noteq> k \<Longrightarrow> cache a k' = Some c' \<Longrightarrow>
      c' \<in> set (remove1 c (categories a)) \<and> ?f c' = k'"
  proof -
    fix k' c' assume k: "k' \<noteq> k" and s: "cache a k' = Some c'"
    from ca [OF s] have cin: "c' \<in> set (categories a)" and fk: "?f c' = k'" by simp_all
    from fk k assms(3) have "c' \<noteq> c" by auto
    with cin have "c' \<in> set (remove1 c (categories a))" by simp
    with fk show "c' \<in> set (remove1 c (categories a)) \<and> ?f c' = k'" by simp
  qed
  show ?thesis
    unfolding AnalysisResult_inv_def
    using lt sub d' ca' by auto
qed

lemma AnalysisResult_inv_removeCategory:
  assumes "AnalysisResult_inv a"
  shows "AnalysisResult_inv (AnalysisResult_removeCategory n a)"
proof (cases "AnalysisResult_getCategoryByName (toLowerCase n) a")
  case (Pair r a1)
  show ?thesis
  proof (cases r)
    case None
    with Pair assms show ?thesis by (simp add: AnalysisResult_removeCategory_None)
  next
    case (Some c)
    with Pair getCategoryByName_Some [OF assms, of "toLowerCase n" c a1]
    have "c \<in> set (categories a)"
      "toLowerCase (CategoryResult.name (categoryStore a ! c)) = toLowerCase n"
      by (simp_all add: toLowerCase_idem)
    with assms have "AnalysisResult_inv
     (a\<lparr>hintsCount := hintsCount a - CategoryResult.hintsCount (categoryStore a ! c),
       categories := remove1 c (categories a),
       cache := (cache a)(toLowerCase n := None)\<rparr>)"
      by (rule AnalysisResult_inv_remove)
    with Pair Some assms show ?thesis by (simp add: AnalysisResult_removeCategory_Some)
  qed
qed

lemma AnalysisResult_inv_new: "AnalysisResult_inv (AnalysisResult_new target options)"
  by (simp add: AnalysisResult_inv_def AnalysisResult_new_def Let_def)

lemma AnalysisResult_inv_call:
  "AnalysisResult_inv a \<Longrightarrow> AnalysisResult_inv (snd (AnalysisResult_call cfg x a))"
  by (cases x)
    (simp_all add: AnalysisResult_inv_getCategoryByName AnalysisResult_inv_addProblem
      AnalysisResult_inv_addCategory AnalysisResult_inv_removeCategory)

lemma AnalysisResult_inv_calls:
  "AnalysisResult_inv a \<Longrightarrow> AnalysisResult_inv (AnalysisResult_calls cfg xs a)"
  by (induction xs arbitrary: a) (simp_all add: AnalysisResult_inv_call)

lemma AnalysisResult_inv_reachable:
  "AnalysisResult_inv (AnalysisResult_calls cfg xs (AnalysisResult_new target options))"
  by (rule AnalysisResult_inv_calls) (rule AnalysisResult_inv_new)

lemma CategoryResult_inv_reachable:
  "CategoryResult_new cfg n u b l = Inr c \<Longrightarrow>
   CategoryResult_inv (CategoryResult_calls cfg xs c)"
  by (rule CategoryResult_inv_calls) (rule CategoryResult_inv_new)

section \<open>Counts\<close>

text \<open>A call that returns widens the gap between the sum over the categories and the
  root by one when it adds a problem of severity \<open>information\<close> or \<open>hint\<close>, and leaves
  it as it is otherwise.\<close>

lemma count_gap_getCategoryByName:
  "count_gap (snd (AnalysisResult_getCategoryByName n a)) = count_gap a"
  by (simp add: AnalysisResult_getCategoryByName_def Let_def count_gap_def split: option.splits)

lemma count_gap_cache: "count_gap (a\<lparr>cache := m\<rparr>) = count_gap a"
  by (simp add: count_gap_def)

lemma count_gap_push:
  assumes "AnalysisResult_inv a"
  shows "count_gap (a\<lparr>categoryStore := categoryStore a @ [x],
           categories := categories a @ [length (categoryStore a)]\<rparr>)
         = count_gap a + CategoryResult.hintsCount x"
proof -
  from assms have lt: "\<And>c. c \<in> set (categories a) \<Longrightarrow> c < length (categoryStore a)"
    by (simp add: AnalysisResult_inv_def)
  have "category_sum (categoryStore a @ [x]) (categories a)
      = category_sum (categoryStore a) (categories a)"
    by (rule category_sum_cong) (simp add: lt nth_append)
  then show ?thesis
    by (simp add: count_gap_def category_sum_append) (simp add: category_sum_def)
qed

lemma count_gap_bump:
  assumes "AnalysisResult_inv a" and "c \<in> set (categories a)"
  shows "count_gap (a\<lparr>hintsCount := hintsCount a + r,
           categoryStore := (categoryStore a)[c := x]\<rparr>)
         = count_gap a
           + (CategoryResult.hintsCount x - CategoryResult.hintsCount (categoryStore a ! c)) - r"
proof -
  from assms have lt: "c < length (categoryStore a)"
    and d: "distinct (map (\<lambda>c. toLowerCase (CategoryResult.name (categoryStore a ! c))) (categories a))"
    by (auto simp: AnalysisResult_inv_def)
  from d have dc: "distinct (categories a)" by (simp add: distinct_map)
  from category_sum_update [OF dc assms(2) lt, of x] show ?thesis
    by (simp add: count_gap_def)
qed

lemma count_gap_addCategory:
  assumes "AnalysisResult_inv a" and "fst (AnalysisResult_addCategory cfg n l a) = None"
  shows "count_gap (snd (AnalysisResult_addCategory cfg n l a)) = count_gap a"
proof (cases "AnalysisResult_getCategoryByName n a")
  case (Pair r a1)
  show ?thesis
  proof (cases r)
    case None
    with Pair getCategoryByName_None [of n a a1] have a1: "a1 = a" by simp
    show ?thesis
    proof (cases "CategoryResult_new cfg n (url a) (isScanner a) l")
      case (Inl e)
      with Pair None a1 assms(2) show ?thesis by (simp add: AnalysisResult_addCategory_throws)
    next
      case (Inr x)
      with Pair None a1 count_gap_push [OF assms(1), of x] CategoryResult_new_fields(2) [OF Inr]
      show ?thesis by (simp add: AnalysisResult_addCategory_new)
    qed
  next
    case (Some c)
    with Pair count_gap_getCategoryByName [of n a] show ?thesis
      by (simp add: AnalysisResult_addCategory_found)
  qed
qed

lemma count_gap_addProblem:
  assumes "AnalysisResult_inv a" and "fst (AnalysisResult_addProblem cfg p l a) = None"
  shows "count_gap (snd (AnalysisResult_addProblem cfg p l a))
           = count_gap a + (if alike (severity p) then 0 else 1)"
proof -
  have k: "(if counted p then 1 else 0)
      - (if severity p = error \<or> severity p = warning then 1 else (0::int))
      = (if alike (severity p) then 0 else 1)"
    using counted_iff_error_warning [of p] counted_not_alike [of p] by auto
  show ?thesis
  proof (cases "AnalysisResult_getCategoryByName (category p) a")
    case (Pair r a1)
    show ?thesis
    proof (cases r)
      case None
      with Pair getCategoryByName_None [of "category p" a a1] have a1: "a1 = a"
        and no: "\<forall>c \<in> set (categories a).
           toLowerCase (CategoryResult.name (categoryStore a ! c)) \<noteq> toLowerCase (category p)"
        by simp_all
      show ?thesis
      proof (cases "CategoryResult_new cfg (category p) (url a) (isScanner a) l")
        case (Inl e)
        with Pair None a1 assms(2) show ?thesis by (simp add: AnalysisResult_addProblem_throws)
      next
        case (Inr x)
        let ?a2 = "a\<lparr>categoryStore := categoryStore a @ [x],
             categories := categories a @ [length (categoryStore a)]\<rparr>"
        have i2: "AnalysisResult_inv ?a2"
          using assms(1) CategoryResult_inv_new [OF Inr] no
          by (intro AnalysisResult_inv_push) (simp_all add: CategoryResult_new_fields [OF Inr])
        from Pair None a1 Inr assms(2) have ret: "fst (CategoryResult_addProblem cfg p x) = None"
          by (simp add: AnalysisResult_addProblem_None)
        have g2: "count_gap ?a2 = count_gap a"
          using count_gap_push [OF assms(1), of x] CategoryResult_new_fields(2) [OF Inr] by simp
        have "count_gap (?a2\<lparr>hintsCount := hintsCount ?a2
                 + (if severity p = error \<or> severity p = warning then 1 else 0),
               categoryStore := (categoryStore ?a2)
                 [length (categoryStore a) := snd (CategoryResult_addProblem cfg p x)]\<rparr>)
            = count_gap ?a2
              + (CategoryResult.hintsCount (snd (CategoryResult_addProblem cfg p x))
                 - CategoryResult.hintsCount (categoryStore ?a2 ! length (categoryStore a)))
              - (if severity p = error \<or> severity p = warning then 1 else 0)"
          using i2 by (rule count_gap_bump) simp
        with Pair None a1 Inr ret g2 k show ?thesis
          by (simp add: AnalysisResult_addProblem_None CategoryResult_addProblem_hintsCount)
      qed
    next
      case (Some c)
      with Pair assms(1) have g: "c \<in> set (categories a)"
        "a1 = a\<lparr>cache := (cache a)(toLowerCase (category p) \<mapsto> c)\<rparr>"
        using getCategoryByName_Some [of a "category p" c a1] by auto
      from Pair Some g assms(2) have
        ret: "fst (CategoryResult_addProblem cfg p (categoryStore a ! c)) = None"
        by (simp add: AnalysisResult_addProblem_Some)
      have "count_gap (a\<lparr>hintsCount := hintsCount a
                 + (if severity p = error \<or> severity p = warning then 1 else 0),
               categoryStore := (categoryStore a)
                 [c := snd (CategoryResult_addProblem cfg p (categoryStore a ! c))]\<rparr>)
            = count_gap a
              + (CategoryResult.hintsCount (snd (CategoryResult_addProblem cfg p (categoryStore a ! c)))
                 - CategoryResult.hintsCount (categoryStore a ! c))
              - (if severity p = error \<or> severity p = warning then 1 else 0)"
        using assms(1) g(1) by (rule count_gap_bump)
      with Pair Some g ret k show ?thesis
        by (simp add: AnalysisResult_addProblem_Some CategoryResult_addProblem_hintsCount
            count_gap_def)
    qed
  qed
qed

lemma count_gap_removeCategory:
  assumes "AnalysisResult_inv a"
  shows "count_gap (AnalysisResult_removeCategory n a) = count_gap a"
proof (cases "AnalysisResult_getCategoryByName (toLowerCase n) a")
  case (Pair r a1)
  show ?thesis
  proof (cases r)
    case None
    with Pair show ?thesis by (simp add: AnalysisResult_removeCategory_None)
  next
    case (Some c)
    with Pair getCategoryByName_Some [OF assms, of "toLowerCase n" c a1]
    have cin: "c \<in> set (categories a)" by simp
    from Pair Some assms cin category_sum_remove1 [OF cin, of "categoryStore a"] show ?thesis
      by (simp add: AnalysisResult_removeCategory_Some count_gap_def)
  qed
qed

lemma count_gap_call:
  assumes "AnalysisResult_inv a" and "fst (AnalysisResult_call cfg x a) = None"
  shows "count_gap (snd (AnalysisResult_call cfg x a))
           = count_gap a + (if counted_alike x then 0 else 1)"
  using assms
  by (cases x)
    (simp_all add: count_gap_getCategoryByName count_gap_addProblem count_gap_addCategory
      count_gap_removeCategory)

lemma count_gap_calls:
  assumes "AnalysisResult_inv a" and "AnalysisResult_returns cfg xs a"
  shows "count_gap (AnalysisResult_calls cfg xs a)
           = count_gap a + int (length (filter (\<lambda>x. \<not> counted_alike x) xs))"
  using assms
proof (induction xs arbitrary: a)
  case Nil
  then show ?case by simp
next
  case (Cons x xs)
  from Cons.prems have r: "fst (AnalysisResult_call cfg x a) = None"
    and rs: "AnalysisResult_returns cfg xs (snd (AnalysisResult_call cfg x a))" by simp_all
  have i: "AnalysisResult_inv (snd (AnalysisResult_call cfg x a))"
    using Cons.prems(1) by (rule AnalysisResult_inv_call)
  from Cons.IH [OF i rs] count_gap_call [OF Cons.prems(1) r] show ?case by simp
qed

lemma count_gap_new: "count_gap (AnalysisResult_new target options) = 0"
  by (simp add: count_gap_def AnalysisResult_new_def Let_def category_sum_def)

text \<open>
  C1, amended. After every sequence of calls on a new analysis result (\<open>addProblem\<close> calls
  followed by \<open>removeCategory\<close> calls among them) that all return and add no problem of
  severity \<open>information\<close> or \<open>hint\<close>, the root \<open>hintsCount\<close> is the sum of the
  \<open>hintsCount\<close> of the categories still in \<open>categories\<close>. After every sequence of calls,
  the \<open>hintsCount\<close> of each category in \<open>categories\<close> is the number of the problems it
  holds whose severity is neither \<open>off\<close> nor \<open>default\<close>.
\<close>

theorem count_consistency_alike:
  "let a0 = AnalysisResult_new target options;
       a = AnalysisResult_calls cfg calls a0
   in (AnalysisResult_returns cfg calls a0 \<and> list_all counted_alike calls \<longrightarrow>
         hintsCount a = (\<Sum>c\<leftarrow>categories a. CategoryResult.hintsCount (categoryStore a ! c))) \<and>
      (\<forall>c \<in> set (categories a).
         CategoryResult.hintsCount (categoryStore a ! c)
           = int (length (filter (\<lambda>p. severity p \<noteq> off \<and> severity p \<noteq> default)
               (CategoryResult_problems (categoryStore a ! c)))))"
proof -
  let ?init = "AnalysisResult_new target options"
  let ?a = "AnalysisResult_calls cfg calls ?init"
  have inv: "AnalysisResult_inv ?a" by (rule AnalysisResult_inv_reachable)
  have s: "hintsCount ?a = (\<Sum>c\<leftarrow>categories ?a. CategoryResult.hintsCount (categoryStore ?a ! c))"
    if r: "AnalysisResult_returns cfg calls ?init" and l: "list_all counted_alike calls"
  proof -
    from l have "filter (\<lambda>x. \<not> counted_alike x) calls = []"
      by (simp add: list_all_iff filter_empty_conv)
    with count_gap_calls [OF AnalysisResult_inv_new r] have "count_gap ?a = 0"
      by (simp add: count_gap_new)
    then show ?thesis by (simp add: count_gap_def category_sum_def)
  qed
  have c: "\<And>c. c \<in> set (categories ?a) \<Longrightarrow>
         CategoryResult.hintsCount (categoryStore ?a ! c)
           = int (length (filter counted (CategoryResult_problems (categoryStore ?a ! c))))"
    using inv by (simp add: AnalysisResult_inv_def CategoryResult_inv_def counted_in_problems)
  have cd: "counted = (\<lambda>p. severity p \<noteq> off \<and> severity p \<noteq> default)"
    by (rule ext) (simp add: counted_def)
  from s c show ?thesis unfolding Let_def cd by blast
qed

lemma example_result_returns:
  "AnalysisResult_returns example_config example_calls
     (AnalysisResult_new ''example.com'' example_options)"
  unfolding example_calls_def by code_simp

lemma example_calls_alike: "list_all counted_alike example_calls"
  by (simp add: example_calls_def example_problem_def alike_def)

lemma example_result_categories: "categories example_result = [0]"
  unfolding example_result_def example_calls_def by code_simp

lemma example_result_hintsCount: "hintsCount example_result = 2"
  unfolding example_result_def example_calls_def by code_simp

lemma example_result_problems:
  "map severity (CategoryResult_problems (categoryStore example_result ! 0)) = [error, off, warning]"
  unfolding example_result_def example_calls_def by code_simp

theorem count_consistency_alike_witness:
  "AnalysisResult_returns example_config example_calls
     (AnalysisResult_new ''example.com'' example_options) \<and>
   list_all counted_alike example_calls \<and>
   0 \<in> set (categories example_result) \<and>
   hintsCount example_result = 2 \<and>
   CategoryResult.hintsCount (categoryStore example_result ! 0) = 2 \<and>
   map severity (CategoryResult_problems (categoryStore example_result ! 0)) = [error, off, warning]"
  using count_consistency_alike [where cfg = example_config and calls = example_calls
      and target = "''example.com''" and options = example_options]
    example_result_returns example_calls_alike
  by (simp add: Let_def example_result_def [symmetric] example_result_categories
      example_result_hintsCount example_result_problems)

text \<open>
  C1, as stated, fails: one \<open>addProblem\<close> with a problem of severity \<open>hint\<close> returns and
  leaves the root \<open>hintsCount\<close> at 0 and that of the one category at 1.
\<close>

theorem count_consistency_fails_for_hint:
  "AnalysisResult_returns example_config
     [AddProblem (example_problem ''sri'' ''security'' hint) None]
     (AnalysisResult_new ''example.com'' example_options) \<and>
   categories example_result_hint = [0] \<and>
   hintsCount example_result_hint = 0 \<and>
   CategoryResult.hintsCount (categoryStore example_result_hint ! 0) = 1 \<and>
   hintsCount example_result_hint
     \<noteq> sum_list (map (\<lambda>c. CategoryResult.hintsCount (categoryStore example_result_hint ! c))
          (categories example_result_hint))"
  unfolding example_result_hint_def by code_simp

section \<open>Lookups\<close>

lemma getCategoryByName_absent:
  assumes "AnalysisResult_inv a"
    and "\<forall>c \<in> set (categories a).
           toLowerCase (CategoryResult.name (categoryStore a ! c)) \<noteq> toLowerCase n"
  shows "AnalysisResult_getCategoryByName n a = (None, a)"
proof -
  have "cache a (toLowerCase n) = None"
  proof (cases "cache a (toLowerCase n)")
    case None
    then show ?thesis .
  next
    case (Some c)
    with assms(1) have "c \<in> set (categories a)"
      "toLowerCase (CategoryResult.name (categoryStore a ! c)) = toLowerCase n"
      by (simp_all add: AnalysisResult_inv_def)
    with assms(2) show ?thesis by blast
  qed
  moreover have "find (\<lambda>cat. toLowerCase (CategoryResult.name (categoryStore a ! cat)) = toLowerCase n)
      (categories a) = None"
    using assms(2) by (simp add: find_None_iff)
  ultimately show ?thesis by (simp add: AnalysisResult_getCategoryByName_def Let_def)
qed

lemma getHintByName_absent:
  assumes "CategoryResult_inv c"
    and "\<forall>h \<in> set (hints c).
           toLowerCase (HintResult.name (hintStore c ! h)) \<noteq> toLowerCase n"
  shows "CategoryResult_getHintByName n c = (None, c)"
proof -
  have "CategoryResult.cache c (toLowerCase n) = None"
  proof (cases "CategoryResult.cache c (toLowerCase n)")
    case None
    then show ?thesis .
  next
    case (Some h)
    with assms(1) have "h \<in> set (hints c)"
      "toLowerCase (HintResult.name (hintStore c ! h)) = toLowerCase n"
      by (simp_all add: CategoryResult_inv_def)
    with assms(2) show ?thesis by blast
  qed
  moreover have "find (\<lambda>hi. toLowerCase (HintResult.name (hintStore c ! hi)) = toLowerCase n)
      (hints c) = None"
    using assms(2) by (simp add: find_None_iff)
  ultimately show ?thesis by (simp add: CategoryResult_getHintByName_def Let_def)
qed

text \<open>
  C9. \<open>getCategoryByName\<close> and \<open>getHintByName\<close> have no failing branch: for a name that no
  category of \<open>categories\<close>, respectively no hint of the category, has (compared in lower
  case), they return no reference and the state they were called on, after any sequence
  of calls on a new analysis result, respectively on a new category (one that its
  constructor returned).
\<close>

theorem lookup_absent:
  "(let a = AnalysisResult_calls cfg calls (AnalysisResult_new target options)
    in (\<forall>c \<in> set (categories a).
          toLowerCase (CategoryResult.name (categoryStore a ! c)) \<noteq> toLowerCase n)
       \<longrightarrow> AnalysisResult_getCategoryByName n a = (None, a)) \<and>
   (CategoryResult_new cfg cname curl scanner language = Inr c0 \<longrightarrow>
    (let c = CategoryResult_calls cfg ccalls c0
     in (\<forall>h \<in> set (hints c @ passed c).
           toLowerCase (HintResult.name (hintStore c ! h)) \<noteq> toLowerCase m)
        \<longrightarrow> CategoryResult_getHintByName m c = (None, c)))"
proof -
  have 1: "(\<forall>c \<in> set (categories (AnalysisResult_calls cfg calls (AnalysisResult_new target options))).
          toLowerCase (CategoryResult.name
            (categoryStore (AnalysisResult_calls cfg calls (AnalysisResult_new target options)) ! c))
            \<noteq> toLowerCase n)
       \<longrightarrow> AnalysisResult_getCategoryByName n
             (AnalysisResult_calls cfg calls (AnalysisResult_new target options))
           = (None, AnalysisResult_calls cfg calls (AnalysisResult_new target options))"
    using getCategoryByName_absent [OF AnalysisResult_inv_reachable] by blast
  have 2: "(\<forall>h \<in> set (hints (CategoryResult_calls cfg ccalls c0)
                        @ passed (CategoryResult_calls cfg ccalls c0)).
           toLowerCase (HintResult.name (hintStore (CategoryResult_calls cfg ccalls c0) ! h))
             \<noteq> toLowerCase m)
        \<longrightarrow> CategoryResult_getHintByName m (CategoryResult_calls cfg ccalls c0)
            = (None, CategoryResult_calls cfg ccalls c0)"
    if "CategoryResult_new cfg cname curl scanner language = Inr c0"
    using getHintByName_absent [OF CategoryResult_inv_reachable [OF that], of ccalls m] by simp
  from 1 2 show ?thesis unfolding Let_def by blast
qed

lemma example_result_names:
  "map (\<lambda>c. toLowerCase (CategoryResult.name (categoryStore example_result ! c)))
     (categories example_result) = [''security'']"
  unfolding example_result_def example_calls_def by code_simp

lemma example_category_names:
  "map (\<lambda>h. toLowerCase (HintResult.name (hintStore example_category ! h)))
     (hints example_category @ passed example_category) = [''no-disallowed-headers'', ''sri'']"
  unfolding example_category_def example_category_calls_def example_new_category_def
  by code_simp

theorem lookup_absent_witness:
  "map (\<lambda>c. toLowerCase (CategoryResult.name (categoryStore example_result ! c)))
     (categories example_result) = [''security''] \<and>
   toLowerCase ''Performance'' = ''performance'' \<and>
   AnalysisResult_getCategoryByName ''Performance'' example_result = (None, example_result) \<and>
   CategoryResult_new example_config ''security'' ''example.com'' False None
     = Inr example_new_category \<and>
   map (\<lambda>h. toLowerCase (HintResult.name (hintStore example_category ! h)))
     (hints example_category @ passed example_category) = [''no-disallowed-headers'', ''sri''] \<and>
   toLowerCase ''HTTP-Cache'' = ''http-cache'' \<and>
   CategoryResult_getHintByName ''HTTP-Cache'' example_category = (None, example_category)"
proof -
  have r: "\<forall>c \<in> set (categories example_result).
      toLowerCase (CategoryResult.name (categoryStore example_result ! c))
        \<noteq> toLowerCase ''Performance''"
    using example_result_names by (simp add: toLowerCase_examples example_result_categories)
  have c: "\<forall>h \<in> set (hints example_category @ passed example_category).
      toLowerCase (HintResult.name (hintStore example_category ! h)) \<noteq> toLowerCase ''HTTP-Cache''"
  proof
    fix h assume "h \<in> set (hints example_category @ passed example_category)"
    then have "toLowerCase (HintResult.name (hintStore example_category ! h))
        \<in> set (map (\<lambda>h. toLowerCase (HintResult.name (hintStore example_category ! h)))
             (hints example_category @ passed example_category))"
      by (simp only: set_map) (rule imageI)
    then show "toLowerCase (HintResult.name (hintStore example_category ! h)) \<noteq> toLowerCase ''HTTP-Cache''"
      unfolding example_category_names by (auto simp: toLowerCase_examples)
  qed
  from r c example_new_category
    lookup_absent [where cfg = example_config and calls = example_calls
      and target = "''example.com''" and options = example_options and n = "''Performance''"
      and ccalls = example_category_calls and cname = "''security''" and curl = "''example.com''"
      and scanner = False and language = None and ?c0.0 = example_new_category
      and m = "''HTTP-Cache''"]
  have "AnalysisResult_getCategoryByName ''Performance'' example_result = (None, example_result)"
    and "CategoryResult_getHintByName ''HTTP-Cache'' example_category = (None, example_category)"
    by (simp_all only: Let_def example_result_def [symmetric] example_category_def [symmetric])
  with example_result_names example_category_names example_new_category show ?thesis
    by (simp only: toLowerCase_examples simp_thms)
qed

lemma toLowerCase_cache_key:
  assumes "AnalysisResult_inv a" and "cache a k = Some c"
  shows "toLowerCase k = k"
proof -
  from assms have "toLowerCase (CategoryResult.name (categoryStore a ! c)) = k"
    by (simp add: AnalysisResult_inv_def)
  then have "toLowerCase k = toLowerCase (toLowerCase (CategoryResult.name (categoryStore a ! c)))"
    by simp
  also have "\<dots> = toLowerCase (CategoryResult.name (categoryStore a ! c))"
    by (rule toLowerCase_idem)
  finally show ?thesis using \<open>toLowerCase (CategoryResult.name (categoryStore a ! c)) = k\<close> by simp
qed

lemma getCategoryByName_in_categories:
  assumes "AnalysisResult_inv a" and "fst (AnalysisResult_getCategoryByName n a) = Some c"
  shows "c \<in> set (categories a)"
proof (cases "AnalysisResult_getCategoryByName n a")
  case (Pair r a')
  with assms(2) have "AnalysisResult_getCategoryByName n a = (Some c, a')" by simp
  from getCategoryByName_Some [OF assms(1) this] show ?thesis by simp
qed

text \<open>
  C10. After every sequence of \<open>getCategoryByName\<close>, \<open>addProblem\<close>, \<open>addCategory\<close> and
  \<open>removeCategory\<close> calls on a new analysis result, every entry of its cache has a
  lower-cased key and leads to a category that is in \<open>categories\<close> and whose name, in lower
  case, is the key; and whatever \<open>getCategoryByName\<close> returns then is in \<open>categories\<close>: a
  removed category is never returned.
\<close>

theorem cache_coherence:
  "let a = AnalysisResult_calls cfg calls (AnalysisResult_new target options)
   in (\<forall>k c. cache a k = Some c \<longrightarrow>
         toLowerCase k = k \<and> c \<in> set (categories a) \<and>
         toLowerCase (CategoryResult.name (categoryStore a ! c)) = k) \<and>
      (\<forall>n c. fst (AnalysisResult_getCategoryByName n a) = Some c \<longrightarrow> c \<in> set (categories a))"
proof -
  let ?a = "AnalysisResult_calls cfg calls (AnalysisResult_new target options)"
  have inv: "AnalysisResult_inv ?a" by (rule AnalysisResult_inv_reachable)
  have 1: "\<And>k c. cache ?a k = Some c \<Longrightarrow> toLowerCase k = k \<and> c \<in> set (categories ?a) \<and>
         toLowerCase (CategoryResult.name (categoryStore ?a ! c)) = k"
    using inv toLowerCase_cache_key [OF inv] by (simp add: AnalysisResult_inv_def)
  have 2: "\<And>n c. fst (AnalysisResult_getCategoryByName n ?a) = Some c \<Longrightarrow> c \<in> set (categories ?a)"
    using inv by (rule getCategoryByName_in_categories)
  from 1 2 show ?thesis unfolding Let_def by blast
qed

lemma example_result2_cache: "cache example_result2 ''security'' = Some 0"
  unfolding example_result2_def example_calls2_def by code_simp

lemma example_result2_lookup:
  "fst (AnalysisResult_getCategoryByName ''security'' example_result2) = Some 0"
  unfolding example_result2_def example_calls2_def by code_simp

lemma example_result2_fields:
  "categories example_result2 = [0]"
  "CategoryResult.name (categoryStore example_result2 ! 0) = ''Security''"
  unfolding example_result2_def example_calls2_def by code_simp+

theorem cache_coherence_witness:
  "cache example_result2 ''security'' = Some 0 \<and>
   fst (AnalysisResult_getCategoryByName ''security'' example_result2) = Some 0 \<and>
   toLowerCase ''security'' = ''security'' \<and> 0 \<in> set (categories example_result2) \<and>
   toLowerCase (CategoryResult.name (categoryStore example_result2 ! 0)) = ''security''"
  using cache_coherence [of example_config example_calls2 "''example.com''" example_options]
    example_result2_cache example_result2_lookup
  by (simp only: Let_def example_result2_def [symmetric])

section \<open>Adding a problem\<close>

text \<open>
  What \<open>addProblem\<close> does when it returns. On a category: \<open>hintsCount\<close> grows by one
  exactly for a severity other than \<open>off\<close> and \<open>default\<close>; one hint of \<open>hints\<close>, of the
  problem's hint name in lower case, and new if no hint of \<open>hints\<close> was chosen, has the
  problem appended to its \<open>problems\<close> and its \<open>count\<close> one higher; every other hint is as
  before. On the analysis result: the root \<open>hintsCount\<close> grows by one exactly for the
  severities \<open>error\<close> and \<open>warning\<close>; one category of \<open>categories\<close>, of the problem's
  category name in lower case, and new if none was there, is what
  \<open>CategoryResult.addProblem\<close> returned on it; every other category is as before.
\<close>

lemma CategoryResult_addProblem_returns:
  assumes "CategoryResult_inv c" and "CategoryResult_addProblem cfg p c = (None, c')"
  shows "CategoryResult.hintsCount c'
           = CategoryResult.hintsCount c
             + (if severity p \<noteq> off \<and> severity p \<noteq> default then 1 else 0) \<and>
         passed c' = passed c \<and>
         (\<exists>h \<in> set (hints c').
            set (hints c') = insert h (set (hints c)) \<and>
            toLowerCase (HintResult.name (hintStore c' ! h)) = toLowerCase (hintId p) \<and>
            problems (hintStore c' ! h)
              = (if h \<in> set (hints c) then problems (hintStore c ! h) else []) @ [p] \<and>
            count (hintStore c' ! h)
              = (if h \<in> set (hints c) then count (hintStore c ! h) else 0) + 1 \<and>
            (\<forall>h' \<in> set (hints c @ passed c). h' \<noteq> h \<longrightarrow> hintStore c' ! h' = hintStore c ! h'))"
proof (cases "CategoryResult_getHintByName (hintId p) c")
  case (Pair r c1)
  from assms(1) have lt: "\<And>h. h \<in> set (hints c @ passed c) \<Longrightarrow> h < length (hintStore c)"
    by (simp add: CategoryResult_inv_def)
  show ?thesis
  proof (cases r)
    case None
    with Pair getHintByName_None [of "hintId p" c c1] have c1: "c1 = c" by simp
    show ?thesis
    proof (cases "HintResult_new cfg (hintId p) (Severity_name (severity p))
        (CategoryResult.url c) (CategoryResult.isScanner c)")
      case (Inl e)
      with Pair None c1 assms(2) show ?thesis by (simp add: CategoryResult_addProblem_throws)
    next
      case (Inr x)
      let ?n = "length (hintStore c)"
      from Pair None c1 Inr assms(2) have c': "c' =
        c\<lparr>hintStore := hintStore c @ [x], hints := hints c @ [?n]\<rparr>
          \<lparr>CategoryResult.hintsCount := CategoryResult.hintsCount c + (if counted p then 1 else 0),
           hintStore := (hintStore c @ [x])[?n := HintResult_addProblem p x]\<rparr>"
        by (simp add: CategoryResult_addProblem_None)
      from lt have fresh: "?n \<notin> set (hints c)" "?n \<notin> set (hints c @ passed c)" by auto
      have old: "\<And>h'. h' \<in> set (hints c @ passed c) \<Longrightarrow>
          ((hintStore c @ [x])[?n := HintResult_addProblem p x]) ! h' = hintStore c ! h'"
        using lt by (auto simp: nth_append nth_list_update)
      have new: "((hintStore c @ [x])[?n := HintResult_addProblem p x]) ! ?n = HintResult_addProblem p x"
        by simp
      have "set (hints c') = insert ?n (set (hints c)) \<and>
            toLowerCase (HintResult.name (hintStore c' ! ?n)) = toLowerCase (hintId p) \<and>
            problems (hintStore c' ! ?n)
              = (if ?n \<in> set (hints c) then problems (hintStore c ! ?n) else []) @ [p] \<and>
            count (hintStore c' ! ?n)
              = (if ?n \<in> set (hints c) then count (hintStore c ! ?n) else 0) + 1 \<and>
            (\<forall>h' \<in> set (hints c @ passed c). h' \<noteq> ?n \<longrightarrow> hintStore c' ! h' = hintStore c ! h')"
        using fresh(1) old HintResult_new_name [OF Inr] HintResult_new_empty [OF Inr]
        by (auto simp: c' HintResult_addProblem_def)
      moreover have "?n \<in> set (hints c')" by (simp add: c')
      ultimately have "\<exists>h \<in> set (hints c').
            set (hints c') = insert h (set (hints c)) \<and>
            toLowerCase (HintResult.name (hintStore c' ! h)) = toLowerCase (hintId p) \<and>
            problems (hintStore c' ! h)
              = (if h \<in> set (hints c) then problems (hintStore c ! h) else []) @ [p] \<and>
            count (hintStore c' ! h)
              = (if h \<in> set (hints c) then count (hintStore c ! h) else 0) + 1 \<and>
            (\<forall>h' \<in> set (hints c @ passed c). h' \<noteq> h \<longrightarrow> hintStore c' ! h' = hintStore c ! h')"
        by blast
      then show ?thesis by (simp add: c' counted_def)
    qed
  next
    case (Some h)
    with Pair assms(1) have g: "h \<in> set (hints c)"
      "toLowerCase (HintResult.name (hintStore c ! h)) = toLowerCase (hintId p)"
      "c1 = c\<lparr>CategoryResult.cache := (CategoryResult.cache c)(toLowerCase (hintId p) \<mapsto> h)\<rparr>"
      using getHintByName_Some [of c "hintId p" h c1] by auto
    from Pair Some g assms(2) have c': "c' =
      c1\<lparr>CategoryResult.hintsCount := CategoryResult.hintsCount c + (if counted p then 1 else 0),
         hintStore := (hintStore c)[h := HintResult_addProblem p (hintStore c ! h)]\<rparr>"
      by (simp add: CategoryResult_addProblem_Some)
    from g(1) lt have hl: "h < length (hintStore c)" by simp
    have "set (hints c') = insert h (set (hints c)) \<and>
            toLowerCase (HintResult.name (hintStore c' ! h)) = toLowerCase (hintId p) \<and>
            problems (hintStore c' ! h)
              = (if h \<in> set (hints c) then problems (hintStore c ! h) else []) @ [p] \<and>
            count (hintStore c' ! h)
              = (if h \<in> set (hints c) then count (hintStore c ! h) else 0) + 1 \<and>
            (\<forall>h' \<in> set (hints c @ passed c). h' \<noteq> h \<longrightarrow> hintStore c' ! h' = hintStore c ! h')"
      using g hl by (auto simp: c' HintResult_addProblem_def)
    moreover have "h \<in> set (hints c')" using g by (simp add: c')
    ultimately have "\<exists>h \<in> set (hints c').
            set (hints c') = insert h (set (hints c)) \<and>
            toLowerCase (HintResult.name (hintStore c' ! h)) = toLowerCase (hintId p) \<and>
            problems (hintStore c' ! h)
              = (if h \<in> set (hints c) then problems (hintStore c ! h) else []) @ [p] \<and>
            count (hintStore c' ! h)
              = (if h \<in> set (hints c) then count (hintStore c ! h) else 0) + 1 \<and>
            (\<forall>h' \<in> set (hints c @ passed c). h' \<noteq> h \<longrightarrow> hintStore c' ! h' = hintStore c ! h')"
      by blast
    then show ?thesis using g by (simp add: c' counted_def)
  qed
qed

lemma AnalysisResult_addProblem_hintsCount:
  "hintsCount (snd (AnalysisResult_addProblem cfg p l a))
     = hintsCount a
       + (if (fst (AnalysisResult_getCategoryByName (category p) a) \<noteq> None \<or>
              CategoryResult_new cfg (category p) (url a) (isScanner a) l \<noteq> Inl TypeError) \<and>
             (severity p = error \<or> severity p = warning) then 1 else 0)"
proof (cases "AnalysisResult_getCategoryByName (category p) a")
  case (Pair r a1)
  show ?thesis
  proof (cases r)
    case None
    with Pair getCategoryByName_None [of "category p" a a1] have a1: "a1 = a" by simp
    show ?thesis
    proof (cases "CategoryResult_new cfg (category p) (url a) (isScanner a) l")
      case (Inl e)
      with Pair None a1 show ?thesis
        by (cases e) (simp add: AnalysisResult_addProblem_throws)
    next
      case (Inr x)
      with Pair None a1 show ?thesis by (simp add: AnalysisResult_addProblem_None)
    qed
  next
    case (Some c)
    with Pair show ?thesis
      by (auto simp: AnalysisResult_addProblem_Some AnalysisResult_getCategoryByName_def Let_def
          split: option.splits)
  qed
qed

lemma AnalysisResult_addProblem_returns:
  assumes "AnalysisResult_inv a" and "AnalysisResult_addProblem cfg p l a = (None, a')"
  shows "hintsCount a' = hintsCount a + (if severity p = error \<or> severity p = warning then 1 else 0) \<and>
         (\<exists>c \<in> set (categories a'). \<exists>old.
            toLowerCase (CategoryResult.name (categoryStore a' ! c)) = toLowerCase (category p) \<and>
            CategoryResult_inv old \<and>
            CategoryResult_addProblem cfg p old = (None, categoryStore a' ! c) \<and>
            (if c \<in> set (categories a)
             then old = categoryStore a ! c \<and> categories a' = categories a
             else CategoryResult_new cfg (category p) (url a) (isScanner a) l = Inr old \<and>
                  categories a' = categories a @ [c]) \<and>
            (\<forall>c' \<in> set (categories a). c' \<noteq> c \<longrightarrow> categoryStore a' ! c' = categoryStore a ! c'))"
proof (cases "AnalysisResult_getCategoryByName (category p) a")
  case (Pair r a1)
  from assms(1) have lt: "\<And>c. c \<in> set (categories a) \<Longrightarrow> c < length (categoryStore a)"
    and ci: "\<And>c. c \<in> set (categories a) \<Longrightarrow> CategoryResult_inv (categoryStore a ! c)"
    by (simp_all add: AnalysisResult_inv_def)
  show ?thesis
  proof (cases r)
    case None
    with Pair getCategoryByName_None [of "category p" a a1] have a1: "a1 = a" by simp
    show ?thesis
    proof (cases "CategoryResult_new cfg (category p) (url a) (isScanner a) l")
      case (Inl e)
      with Pair None a1 assms(2) show ?thesis by (simp add: AnalysisResult_addProblem_throws)
    next
      case (Inr x)
      let ?n = "length (categoryStore a)"
      from Pair None a1 Inr assms(2) have ret: "fst (CategoryResult_addProblem cfg p x) = None"
        and a': "a' = a\<lparr>categoryStore := categoryStore a @ [x],
             categories := categories a @ [?n]\<rparr>
            \<lparr>hintsCount := hintsCount a + (if severity p = error \<or> severity p = warning then 1 else 0),
             categoryStore := (categoryStore a @ [x])[?n := snd (CategoryResult_addProblem cfg p x)]\<rparr>"
        by (simp_all add: AnalysisResult_addProblem_None)
      from lt have fresh: "?n \<notin> set (categories a)" by auto
      have old: "\<And>c'. c' \<in> set (categories a) \<Longrightarrow>
          ((categoryStore a @ [x])[?n := snd (CategoryResult_addProblem cfg p x)]) ! c'
            = categoryStore a ! c'"
        using lt by (auto simp: nth_append nth_list_update)
      have e: "CategoryResult_addProblem cfg p x = (None, categoryStore a' ! ?n)"
        using ret by (simp add: a' prod_eq_iff)
      have "?n \<in> set (categories a')" by (simp add: a')
      moreover have "toLowerCase (CategoryResult.name (categoryStore a' ! ?n)) = toLowerCase (category p)"
        by (simp add: a' CategoryResult_addProblem_name CategoryResult_new_fields [OF Inr])
      moreover have "categories a' = categories a @ [?n]" by (simp add: a')
      moreover have "\<forall>c' \<in> set (categories a). c' \<noteq> ?n \<longrightarrow> categoryStore a' ! c' = categoryStore a ! c'"
        using old by (simp add: a')
      ultimately have "\<exists>c \<in> set (categories a'). \<exists>old.
            toLowerCase (CategoryResult.name (categoryStore a' ! c)) = toLowerCase (category p) \<and>
            CategoryResult_inv old \<and>
            CategoryResult_addProblem cfg p old = (None, categoryStore a' ! c) \<and>
            (if c \<in> set (categories a)
             then old = categoryStore a ! c \<and> categories a' = categories a
             else CategoryResult_new cfg (category p) (url a) (isScanner a) l = Inr old \<and>
                  categories a' = categories a @ [c]) \<and>
            (\<forall>c' \<in> set (categories a). c' \<noteq> c \<longrightarrow> categoryStore a' ! c' = categoryStore a ! c')"
        using fresh e Inr CategoryResult_inv_new [OF Inr]
        by (intro bexI [of _ ?n] exI [of _ x]) simp_all
      then show ?thesis by (simp add: a')
    qed
  next
    case (Some c)
    with Pair assms(1) have g: "c \<in> set (categories a)"
      "toLowerCase (CategoryResult.name (categoryStore a ! c)) = toLowerCase (category p)"
      "a1 = a\<lparr>cache := (cache a)(toLowerCase (category p) \<mapsto> c)\<rparr>"
      using getCategoryByName_Some [of a "category p" c a1] by auto
    from Pair Some g assms(2) have
      ret: "fst (CategoryResult_addProblem cfg p (categoryStore a ! c)) = None"
      and a': "a' = a1\<lparr>hintsCount := hintsCount a + (if severity p = error \<or> severity p = warning then 1 else 0),
         categoryStore := (categoryStore a)
           [c := snd (CategoryResult_addProblem cfg p (categoryStore a ! c))]\<rparr>"
      by (simp_all add: AnalysisResult_addProblem_Some)
    from lt g(1) have cl: "c < length (categoryStore a)" by simp
    have e: "CategoryResult_addProblem cfg p (categoryStore a ! c) = (None, categoryStore a' ! c)"
      using ret cl by (simp add: a' prod_eq_iff)
    have "\<exists>c \<in> set (categories a'). \<exists>old.
            toLowerCase (CategoryResult.name (categoryStore a' ! c)) = toLowerCase (category p) \<and>
            CategoryResult_inv old \<and>
            CategoryResult_addProblem cfg p old = (None, categoryStore a' ! c) \<and>
            (if c \<in> set (categories a)
             then old = categoryStore a ! c \<and> categories a' = categories a
             else CategoryResult_new cfg (category p) (url a) (isScanner a) l = Inr old \<and>
                  categories a' = categories a @ [c]) \<and>
            (\<forall>c' \<in> set (categories a). c' \<noteq> c \<longrightarrow> categoryStore a' ! c' = categoryStore a ! c')"
      using g e ci [OF g(1)] cl
      by (intro bexI [of _ c] exI [of _ "categoryStore a ! c"])
        (simp_all add: a' CategoryResult_addProblem_name)
    then show ?thesis by (simp add: a' g)
  qed
qed

text \<open>So a problem whose \<open>addProblem\<close> returned is among the problems that its category
  holds.\<close>

lemma CategoryResult_addProblem_holds:
  assumes "CategoryResult_inv c" and "CategoryResult_addProblem cfg p c = (None, c')"
  shows "p \<in> set (CategoryResult_problems c')"
proof -
  from CategoryResult_addProblem_returns [OF assms]
  obtain h where "h \<in> set (hints c')" and "p \<in> set (problems (hintStore c' ! h))" by auto
  then show ?thesis by (auto simp: CategoryResult_problems_def)
qed

lemma AnalysisResult_addProblem_holds:
  assumes "AnalysisResult_inv a" and "AnalysisResult_addProblem cfg p l a = (None, a')"
  shows "\<exists>c \<in> set (categories a').
           toLowerCase (CategoryResult.name (categoryStore a' ! c)) = toLowerCase (category p) \<and>
           p \<in> set (CategoryResult_problems (categoryStore a' ! c))"
proof -
  from AnalysisResult_addProblem_returns [OF assms]
  obtain c old where c: "c \<in> set (categories a')"
    "toLowerCase (CategoryResult.name (categoryStore a' ! c)) = toLowerCase (category p)"
    "CategoryResult_inv old"
    "CategoryResult_addProblem cfg p old = (None, categoryStore a' ! c)" by blast
  from CategoryResult_addProblem_holds [OF c(3,4)] c(1,2) show ?thesis by blast
qed

text \<open>
  C7. The code at an input where the claim fails: a problem of the hint \<open>toString\<close>,
  category \<open>security\<close> and severity \<open>error\<close>. \<open>thirdPartyServices['toString']\<close> is the
  function that the table inherits, its clone has no \<open>link\<close>, and the constructor of
  \<open>HintResult\<close> throws. On a new category \<open>addProblem\<close> throws and leaves \<open>hintsCount\<close> at
  0 and no hint. On a new analysis result \<open>addProblem\<close> throws after the root has counted
  the problem and created the category: the root \<open>hintsCount\<close> is 1, the category holds
  nothing and counts 0.
\<close>

theorem addProblem_throws_for_inherited_name:
  "CategoryResult_new example_config ''security'' ''example.com'' False None
     = Inr example_new_category \<and>
   (let (thrown, c) = CategoryResult_addProblem example_config
                        (example_problem ''toString'' ''security'' error) example_new_category
    in (thrown, CategoryResult.hintsCount c, hints c, hintStore c))
   = (Some TypeError, 0, [], []) \<and>
   (let (thrown, a) = AnalysisResult_addProblem example_config
                        (example_problem ''toString'' ''security'' error) None
                        (AnalysisResult_new ''example.com'' example_options)
    in (thrown, hintsCount a, categories a,
        map CategoryResult.hintsCount (categoryStore a), map hintStore (categoryStore a)))
   = (Some TypeError, 1, [0], [0], [[]])"
proof -
  have 1: "(let (thrown, c) = CategoryResult_addProblem example_config
                        (example_problem ''toString'' ''security'' error) example_new_category
    in (thrown, CategoryResult.hintsCount c, hints c, hintStore c))
   = (Some TypeError, 0, [], [])"
    unfolding example_new_category_def by code_simp
  have 2: "(let (thrown, a) = AnalysisResult_addProblem example_config
                        (example_problem ''toString'' ''security'' error) None
                        (AnalysisResult_new ''example.com'' example_options)
    in (thrown, hintsCount a, categories a,
        map CategoryResult.hintsCount (categoryStore a), map hintStore (categoryStore a)))
   = (Some TypeError, 1, [0], [0], [[]])"
    by code_simp
  from example_new_category 1 2 show ?thesis by simp
qed

section \<open>Removing a category\<close>

lemma getCategoryByName_present:
  assumes "AnalysisResult_inv a" and "c \<in> set (categories a)"
    and "toLowerCase (CategoryResult.name (categoryStore a ! c)) = toLowerCase n"
  shows "AnalysisResult_getCategoryByName n a
           = (Some c, a\<lparr>cache := (cache a)(toLowerCase n \<mapsto> c)\<rparr>)"
proof (cases "AnalysisResult_getCategoryByName n a")
  case (Pair r a')
  show ?thesis
  proof (cases r)
    case None
    with Pair getCategoryByName_None [of n a a'] assms(2,3) show ?thesis by auto
  next
    case (Some c')
    with Pair getCategoryByName_Some [OF assms(1), of n c' a']
    have c': "c' \<in> set (categories a)"
      "toLowerCase (CategoryResult.name (categoryStore a ! c')) = toLowerCase n"
      "a' = a\<lparr>cache := (cache a)(toLowerCase n \<mapsto> c')\<rparr>" by simp_all
    from assms(1) have inj: "inj_on (\<lambda>c. toLowerCase (CategoryResult.name (categoryStore a ! c)))
        (set (categories a))"
      by (simp add: AnalysisResult_inv_def distinct_map)
    from c' assms(2,3) inj_onD [OF inj, of c' c] have "c' = c" by simp
    with Pair Some c'(3) show ?thesis by simp
  qed
qed

lemma removeCategory_absent:
  assumes "AnalysisResult_inv a"
    and "\<forall>c \<in> set (categories a).
           toLowerCase (CategoryResult.name (categoryStore a ! c)) \<noteq> toLowerCase n"
  shows "AnalysisResult_removeCategory n a = a"
proof -
  from assms(2) have "\<forall>c \<in> set (categories a).
      toLowerCase (CategoryResult.name (categoryStore a ! c)) \<noteq> toLowerCase (toLowerCase n)"
    by (simp add: toLowerCase_idem)
  with assms(1) have "AnalysisResult_getCategoryByName (toLowerCase n) a = (None, a)"
    by (rule getCategoryByName_absent)
  then show ?thesis by (rule AnalysisResult_removeCategory_None)
qed

lemma removeCategory_present:
  assumes "AnalysisResult_inv a" and "c \<in> set (categories a)"
    and "toLowerCase (CategoryResult.name (categoryStore a ! c)) = toLowerCase n"
  shows "AnalysisResult_removeCategory n a =
     a\<lparr>hintsCount := hintsCount a - CategoryResult.hintsCount (categoryStore a ! c),
       categories := remove1 c (categories a),
       cache := (cache a)(toLowerCase n := None)\<rparr>"
    and "c \<notin> set (categories (AnalysisResult_removeCategory n a))"
    and "AnalysisResult_getCategoryByName n (AnalysisResult_removeCategory n a)
           = (None, AnalysisResult_removeCategory n a)"
proof -
  let ?f = "\<lambda>c. toLowerCase (CategoryResult.name (categoryStore a ! c))"
  from assms(3) have "?f c = toLowerCase (toLowerCase n)" by (simp add: toLowerCase_idem)
  with assms(1,2) have "AnalysisResult_getCategoryByName (toLowerCase n) a
      = (Some c, a\<lparr>cache := (cache a)(toLowerCase (toLowerCase n) \<mapsto> c)\<rparr>)"
    by (rule getCategoryByName_present)
  with assms(1) show eq: "AnalysisResult_removeCategory n a =
     a\<lparr>hintsCount := hintsCount a - CategoryResult.hintsCount (categoryStore a ! c),
       categories := remove1 c (categories a),
       cache := (cache a)(toLowerCase n := None)\<rparr>"
    by (rule AnalysisResult_removeCategory_Some)
  from assms(1) have d: "distinct (map ?f (categories a))" by (simp add: AnalysisResult_inv_def)
  then have dc: "distinct (categories a)" and inj: "inj_on ?f (set (categories a))"
    by (simp_all add: distinct_map)
  from dc show notin: "c \<notin> set (categories (AnalysisResult_removeCategory n a))"
    by (simp add: eq)
  have inv': "AnalysisResult_inv (AnalysisResult_removeCategory n a)"
    using assms(1) by (rule AnalysisResult_inv_removeCategory)
  have "\<forall>c' \<in> set (categories (AnalysisResult_removeCategory n a)).
      toLowerCase (CategoryResult.name (categoryStore (AnalysisResult_removeCategory n a) ! c'))
        \<noteq> toLowerCase n"
  proof
    fix c' assume "c' \<in> set (categories (AnalysisResult_removeCategory n a))"
    with dc have c': "c' \<in> set (categories a)" "c' \<noteq> c" by (auto simp: eq)
    with assms(2) inj_onD [OF inj, of c' c] have "?f c' \<noteq> ?f c" by auto
    with assms(3) show "toLowerCase (CategoryResult.name
        (categoryStore (AnalysisResult_removeCategory n a) ! c')) \<noteq> toLowerCase n"
      by (simp add: eq)
  qed
  with inv' show "AnalysisResult_getCategoryByName n (AnalysisResult_removeCategory n a)
           = (None, AnalysisResult_removeCategory n a)"
    by (rule getCategoryByName_absent)
qed

lemma addProblem_same_category:
  assumes "AnalysisResult_inv a" and "c \<in> set (categories a)"
    and "toLowerCase (CategoryResult.name (categoryStore a ! c)) = toLowerCase (category p)"
    and "alike (severity p)" and "fst (AnalysisResult_addProblem cfg p l a) = None"
  shows "c \<in> set (categories (snd (AnalysisResult_addProblem cfg p l a))) \<and>
     toLowerCase (CategoryResult.name (categoryStore (snd (AnalysisResult_addProblem cfg p l a)) ! c))
       = toLowerCase (category p) \<and>
     hintsCount (snd (AnalysisResult_addProblem cfg p l a))
       - CategoryResult.hintsCount (categoryStore (snd (AnalysisResult_addProblem cfg p l a)) ! c)
       = hintsCount a - CategoryResult.hintsCount (categoryStore a ! c) \<and>
     hintsCount (snd (AnalysisResult_addProblem cfg p l a))
       = hintsCount a + (if counted p then 1 else 0)"
proof -
  note g = getCategoryByName_present [OF assms(1-3)]
  from assms(1,2) have cl: "c < length (categoryStore a)" by (simp add: AnalysisResult_inv_def)
  from assms(5) have "fst (CategoryResult_addProblem cfg p (categoryStore a ! c)) = None"
    by (simp add: AnalysisResult_addProblem_Some [OF g])
  with assms(2,3) cl counted_iff_error_warning [OF assms(4)] show ?thesis
    by (simp add: AnalysisResult_addProblem_Some [OF g] CategoryResult_addProblem_name
        CategoryResult_addProblem_hintsCount)
qed

lemma addProblems_same_category:
  assumes "AnalysisResult_inv a" and "c \<in> set (categories a)"
    and "toLowerCase (CategoryResult.name (categoryStore a ! c)) = k"
    and "\<forall>p \<in> set ps. toLowerCase (category p) = k \<and> alike (severity p)"
    and "AnalysisResult_returns cfg (map (\<lambda>p. AddProblem p l) ps) a"
  shows "c \<in> set (categories (AnalysisResult_calls cfg (map (\<lambda>p. AddProblem p l) ps) a)) \<and>
     toLowerCase (CategoryResult.name
       (categoryStore (AnalysisResult_calls cfg (map (\<lambda>p. AddProblem p l) ps) a) ! c)) = k \<and>
     hintsCount (AnalysisResult_calls cfg (map (\<lambda>p. AddProblem p l) ps) a)
       - CategoryResult.hintsCount
           (categoryStore (AnalysisResult_calls cfg (map (\<lambda>p. AddProblem p l) ps) a) ! c)
       = hintsCount a - CategoryResult.hintsCount (categoryStore a ! c) \<and>
     hintsCount (AnalysisResult_calls cfg (map (\<lambda>p. AddProblem p l) ps) a)
       = hintsCount a + int (length (filter counted ps))"
  using assms
proof (induction ps arbitrary: a)
  case Nil
  then show ?case by simp
next
  case (Cons p ps)
  let ?a = "snd (AnalysisResult_addProblem cfg p l a)"
  from Cons.prems have k: "toLowerCase (CategoryResult.name (categoryStore a ! c))
      = toLowerCase (category p)" and al: "alike (severity p)"
    and r: "fst (AnalysisResult_addProblem cfg p l a) = None"
    and rs: "AnalysisResult_returns cfg (map (\<lambda>p. AddProblem p l) ps) ?a" by simp_all
  from addProblem_same_category [OF Cons.prems(1,2) k al r]
  have s: "c \<in> set (categories ?a)"
    "toLowerCase (CategoryResult.name (categoryStore ?a ! c)) = k"
    "hintsCount ?a - CategoryResult.hintsCount (categoryStore ?a ! c)
       = hintsCount a - CategoryResult.hintsCount (categoryStore a ! c)"
    "hintsCount ?a = hintsCount a + (if counted p then 1 else 0)"
    using Cons.prems by simp_all
  have i: "AnalysisResult_inv ?a" using Cons.prems(1) by (rule AnalysisResult_inv_addProblem)
  from Cons.prems have rest: "\<forall>p \<in> set ps. toLowerCase (category p) = k \<and> alike (severity p)"
    by simp
  from Cons.IH [OF i s(1) s(2) rest rs] s(3) s(4) show ?case by simp
qed

lemma add_then_remove:
  assumes "AnalysisResult_inv a"
    and "\<forall>c \<in> set (categories a).
           toLowerCase (CategoryResult.name (categoryStore a ! c)) \<noteq> toLowerCase n"
    and "\<forall>p \<in> set ps. toLowerCase (category p) = toLowerCase n \<and> alike (severity p)"
    and "AnalysisResult_returns cfg (AddCategory n l # map (\<lambda>p. AddProblem p l) ps) a"
  shows "hintsCount (AnalysisResult_calls cfg (AddCategory n l # map (\<lambda>p. AddProblem p l) ps) a)
           = hintsCount a + int (length (filter counted ps))"
    and "hintsCount (AnalysisResult_removeCategory n
           (AnalysisResult_calls cfg (AddCategory n l # map (\<lambda>p. AddProblem p l) ps) a))
           = hintsCount a"
    and "AnalysisResult_getCategoryByName n (AnalysisResult_removeCategory n
           (AnalysisResult_calls cfg (AddCategory n l # map (\<lambda>p. AddProblem p l) ps) a))
           = (None, AnalysisResult_removeCategory n
           (AnalysisResult_calls cfg (AddCategory n l # map (\<lambda>p. AddProblem p l) ps) a))"
proof -
  let ?c = "length (categoryStore a)"
  let ?ac = "snd (AnalysisResult_addCategory cfg n l a)"
  let ?a1 = "AnalysisResult_calls cfg (map (\<lambda>p. AddProblem p l) ps) ?ac"
  from assms(4) have r: "fst (AnalysisResult_addCategory cfg n l a) = None"
    and rs: "AnalysisResult_returns cfg (map (\<lambda>p. AddProblem p l) ps) ?ac" by simp_all
  have g: "AnalysisResult_getCategoryByName n a = (None, a)"
    using assms(1,2) by (rule getCategoryByName_absent)
  from r g obtain x where x: "CategoryResult_new cfg n (url a) (isScanner a) l = Inr x"
    by (cases "CategoryResult_new cfg n (url a) (isScanner a) l")
      (simp_all add: AnalysisResult_addCategory_throws)
  have ac: "?ac = a\<lparr>categoryStore := categoryStore a @ [x], categories := categories a @ [?c]\<rparr>"
    using g x by (simp add: AnalysisResult_addCategory_new)
  have iac: "AnalysisResult_inv ?ac" using assms(1) by (rule AnalysisResult_inv_addCategory)
  have cin: "?c \<in> set (categories ?ac)" by (simp add: ac)
  have nm: "toLowerCase (CategoryResult.name (categoryStore ?ac ! ?c)) = toLowerCase n"
    by (simp add: ac CategoryResult_new_fields [OF x])
  have z: "CategoryResult.hintsCount (categoryStore ?ac ! ?c) = 0" "hintsCount ?ac = hintsCount a"
    by (simp_all add: ac CategoryResult_new_fields [OF x])
  from addProblems_same_category [OF iac cin nm assms(3) rs]
  have s: "?c \<in> set (categories ?a1)"
    "toLowerCase (CategoryResult.name (categoryStore ?a1 ! ?c)) = toLowerCase n"
    "hintsCount ?a1 - CategoryResult.hintsCount (categoryStore ?a1 ! ?c) = hintsCount a"
    "hintsCount ?a1 = hintsCount a + int (length (filter counted ps))"
    using z by simp_all
  have i1: "AnalysisResult_inv ?a1" using iac by (rule AnalysisResult_inv_calls)
  from s(4) show "hintsCount (AnalysisResult_calls cfg (AddCategory n l # map (\<lambda>p. AddProblem p l) ps) a)
           = hintsCount a + int (length (filter counted ps))" by simp
  from removeCategory_present(1) [OF i1 s(1) s(2)] s(3)
  show "hintsCount (AnalysisResult_removeCategory n
           (AnalysisResult_calls cfg (AddCategory n l # map (\<lambda>p. AddProblem p l) ps) a))
           = hintsCount a" by simp
  from removeCategory_present(3) [OF i1 s(1) s(2)]
  show "AnalysisResult_getCategoryByName n (AnalysisResult_removeCategory n
           (AnalysisResult_calls cfg (AddCategory n l # map (\<lambda>p. AddProblem p l) ps) a))
           = (None, AnalysisResult_removeCategory n
           (AnalysisResult_calls cfg (AddCategory n l # map (\<lambda>p. AddProblem p l) ps) a))" by simp
qed

lemma removed_not_cached:
  assumes "AnalysisResult_inv a" and "c \<in> set (categories a)"
    and "toLowerCase (CategoryResult.name (categoryStore a ! c)) = toLowerCase n"
  shows "cache (AnalysisResult_removeCategory n a) k \<noteq> Some c"
proof
  assume "cache (AnalysisResult_removeCategory n a) k = Some c"
  moreover have "AnalysisResult_inv (AnalysisResult_removeCategory n a)"
    using assms(1) by (rule AnalysisResult_inv_removeCategory)
  ultimately have "c \<in> set (categories (AnalysisResult_removeCategory n a))"
    by (simp add: AnalysisResult_inv_def)
  with removeCategory_present(2) [OF assms] show False by simp
qed

text \<open>
  C4, amended. On an analysis result reached by any sequence of calls from a new one:
  \<open>removeCategory\<close> changes nothing when no category has the name, compared in lower case;
  when a category has it, the root \<open>hintsCount\<close> loses exactly that category's
  \<open>hintsCount\<close>, the category leaves \<open>categories\<close>, no cache entry leads to it any more and
  \<open>getCategoryByName\<close> for the name then finds nothing; and when a category that was not
  there is added, receives problems of its own, none of severity \<open>information\<close> or
  \<open>hint\<close>, in calls that all return, and is removed, the root \<open>hintsCount\<close> first grows by
  the number of these problems that count and is then back at its value from before the
  category was added.
\<close>

theorem removeCategory_alike:
  "let a = AnalysisResult_calls cfg calls (AnalysisResult_new target options)
   in ((\<forall>c \<in> set (categories a).
          toLowerCase (CategoryResult.name (categoryStore a ! c)) \<noteq> toLowerCase n)
        \<longrightarrow> AnalysisResult_removeCategory n a = a) \<and>
      (\<forall>c \<in> set (categories a).
          toLowerCase (CategoryResult.name (categoryStore a ! c)) = toLowerCase n \<longrightarrow>
          (let a' = AnalysisResult_removeCategory n a
           in hintsCount a' = hintsCount a - CategoryResult.hintsCount (categoryStore a ! c) \<and>
              categories a' = remove1 c (categories a) \<and>
              c \<notin> set (categories a') \<and>
              (\<forall>k. cache a' k \<noteq> Some c) \<and>
              AnalysisResult_getCategoryByName n a' = (None, a'))) \<and>
      ((\<forall>c \<in> set (categories a).
          toLowerCase (CategoryResult.name (categoryStore a ! c)) \<noteq> toLowerCase n) \<and>
       (\<forall>p \<in> set ps. toLowerCase (category p) = toLowerCase n \<and>
          severity p \<noteq> information \<and> severity p \<noteq> hint) \<and>
       AnalysisResult_returns cfg (AddCategory n l # map (\<lambda>p. AddProblem p l) ps) a \<longrightarrow>
          (let a1 = AnalysisResult_calls cfg (AddCategory n l # map (\<lambda>p. AddProblem p l) ps) a;
               a2 = AnalysisResult_removeCategory n a1
           in hintsCount a1
                = hintsCount a
                  + int (length (filter (\<lambda>p. severity p \<noteq> off \<and> severity p \<noteq> default) ps)) \<and>
              hintsCount a2 = hintsCount a \<and>
              AnalysisResult_getCategoryByName n a2 = (None, a2)))"
proof -
  let ?a = "AnalysisResult_calls cfg calls (AnalysisResult_new target options)"
  have inv: "AnalysisResult_inv ?a" by (rule AnalysisResult_inv_reachable)
  have cd: "(\<lambda>p. severity p \<noteq> off \<and> severity p \<noteq> default) = counted"
    by (rule ext) (simp add: counted_def)
  have 1: "(\<forall>c \<in> set (categories ?a).
          toLowerCase (CategoryResult.name (categoryStore ?a ! c)) \<noteq> toLowerCase n)
        \<longrightarrow> AnalysisResult_removeCategory n ?a = ?a"
    using removeCategory_absent [OF inv] by blast
  have 2: "\<forall>c \<in> set (categories ?a).
          toLowerCase (CategoryResult.name (categoryStore ?a ! c)) = toLowerCase n \<longrightarrow>
          (let a' = AnalysisResult_removeCategory n ?a
           in hintsCount a' = hintsCount ?a - CategoryResult.hintsCount (categoryStore ?a ! c) \<and>
              categories a' = remove1 c (categories ?a) \<and>
              c \<notin> set (categories a') \<and>
              (\<forall>k. cache a' k \<noteq> Some c) \<and>
              AnalysisResult_getCategoryByName n a' = (None, a'))"
  proof (intro ballI impI)
    fix c assume c: "c \<in> set (categories ?a)"
      "toLowerCase (CategoryResult.name (categoryStore ?a ! c)) = toLowerCase n"
    note p = removeCategory_present [OF inv c]
    have "hintsCount (AnalysisResult_removeCategory n ?a)
        = hintsCount ?a - CategoryResult.hintsCount (categoryStore ?a ! c)"
      "categories (AnalysisResult_removeCategory n ?a) = remove1 c (categories ?a)"
      by (simp_all add: p(1))
    with p(2) p(3) removed_not_cached [OF inv c]
    show "let a' = AnalysisResult_removeCategory n ?a
           in hintsCount a' = hintsCount ?a - CategoryResult.hintsCount (categoryStore ?a ! c) \<and>
              categories a' = remove1 c (categories ?a) \<and>
              c \<notin> set (categories a') \<and>
              (\<forall>k. cache a' k \<noteq> Some c) \<and>
              AnalysisResult_getCategoryByName n a' = (None, a')"
      unfolding Let_def by blast
  qed
  have 3: "(\<forall>c \<in> set (categories ?a).
          toLowerCase (CategoryResult.name (categoryStore ?a ! c)) \<noteq> toLowerCase n) \<and>
       (\<forall>p \<in> set ps. toLowerCase (category p) = toLowerCase n \<and> alike (severity p)) \<and>
       AnalysisResult_returns cfg (AddCategory n l # map (\<lambda>p. AddProblem p l) ps) ?a \<longrightarrow>
          (let a1 = AnalysisResult_calls cfg (AddCategory n l # map (\<lambda>p. AddProblem p l) ps) ?a;
               a2 = AnalysisResult_removeCategory n a1
           in hintsCount a1 = hintsCount ?a + int (length (filter counted ps)) \<and>
              hintsCount a2 = hintsCount ?a \<and>
              AnalysisResult_getCategoryByName n a2 = (None, a2))"
    unfolding Let_def using add_then_remove [OF inv, where cfg = cfg and l = l and n = n and ps = ps]
    by blast
  from 1 2 3 show ?thesis unfolding Let_def cd alike_def by blast
qed

lemma example_result_category_count:
  "CategoryResult.hintsCount (categoryStore example_result ! 0) = 2"
  unfolding example_result_def example_calls_def by code_simp

lemma example_result_name:
  "toLowerCase (CategoryResult.name (categoryStore example_result ! 0)) = ''security''"
  unfolding example_result_def example_calls_def by code_simp

lemma example_problems3_return:
  "AnalysisResult_returns example_config
     (AddCategory ''Performance'' None # map (\<lambda>p. AddProblem p None) example_problems3)
     example_result"
  unfolding example_result_def example_calls_def example_problems3_def by code_simp

theorem removeCategory_alike_witness:
  "categories example_result = [0] \<and>
   toLowerCase (CategoryResult.name (categoryStore example_result ! 0)) = ''security'' \<and>
   hintsCount example_result = 2 \<and>
   AnalysisResult_removeCategory ''Accessibility'' example_result = example_result \<and>
   hintsCount (AnalysisResult_removeCategory ''SECURITY'' example_result) = 0 \<and>
   categories (AnalysisResult_removeCategory ''SECURITY'' example_result) = [] \<and>
   fst (AnalysisResult_getCategoryByName ''SECURITY''
          (AnalysisResult_removeCategory ''SECURITY'' example_result)) = None \<and>
   map (\<lambda>p. toLowerCase (category p)) example_problems3
     = [''performance'', ''performance'', ''performance''] \<and>
   map severity example_problems3 = [error, warning, warning] \<and>
   AnalysisResult_returns example_config
     (AddCategory ''Performance'' None # map (\<lambda>p. AddProblem p None) example_problems3)
     example_result \<and>
   hintsCount (AnalysisResult_calls example_config
       (AddCategory ''Performance'' None # map (\<lambda>p. AddProblem p None) example_problems3)
       example_result) = 5 \<and>
   hintsCount (AnalysisResult_removeCategory ''Performance''
       (AnalysisResult_calls example_config
          (AddCategory ''Performance'' None # map (\<lambda>p. AddProblem p None) example_problems3)
          example_result)) = 2"
proof -
  note ex = example_result_categories example_result_name example_result_hintsCount
    example_result_category_count
  note lc = toLowerCase_examples toLowerCase_examples2
  have ps: "map (\<lambda>p. toLowerCase (category p)) example_problems3
     = [''performance'', ''performance'', ''performance'']"
    by (simp add: example_problems3_def example_problem_def lc)
  have sv: "map severity example_problems3 = [error, warning, warning]"
    by (simp add: example_problems3_def example_problem_def)
  have cnt: "length (filter (\<lambda>p. severity p \<noteq> off \<and> severity p \<noteq> default) example_problems3) = 3"
    by (simp add: example_problems3_def example_problem_def)
  have h1: "\<forall>c \<in> set (categories example_result).
      toLowerCase (CategoryResult.name (categoryStore example_result ! c))
        \<noteq> toLowerCase ''Accessibility''"
    by (simp add: ex lc)
  have h2: "0 \<in> set (categories example_result) \<and>
      toLowerCase (CategoryResult.name (categoryStore example_result ! 0)) = toLowerCase ''SECURITY''"
    by (simp add: ex lc)
  have h3: "\<forall>c \<in> set (categories example_result).
      toLowerCase (CategoryResult.name (categoryStore example_result ! c))
        \<noteq> toLowerCase ''Performance''"
    by (simp add: ex lc)
  have h4: "\<forall>p \<in> set example_problems3. toLowerCase (category p) = toLowerCase ''Performance'' \<and>
      severity p \<noteq> information \<and> severity p \<noteq> hint"
    by (simp add: example_problems3_def example_problem_def lc)
  from h1 removeCategory_alike [where cfg = example_config and calls = example_calls
      and target = "''example.com''" and options = example_options and n = "''Accessibility''"]
  have 1: "AnalysisResult_removeCategory ''Accessibility'' example_result = example_result"
    unfolding Let_def example_result_def [symmetric] by blast
  from h2 removeCategory_alike [where cfg = example_config and calls = example_calls
      and target = "''example.com''" and options = example_options and n = "''SECURITY''"]
  have 2: "hintsCount (AnalysisResult_removeCategory ''SECURITY'' example_result)
        = hintsCount example_result - CategoryResult.hintsCount (categoryStore example_result ! 0)"
      "categories (AnalysisResult_removeCategory ''SECURITY'' example_result)
        = remove1 0 (categories example_result)"
      "AnalysisResult_getCategoryByName ''SECURITY''
          (AnalysisResult_removeCategory ''SECURITY'' example_result)
        = (None, AnalysisResult_removeCategory ''SECURITY'' example_result)"
    unfolding Let_def example_result_def [symmetric] by blast+
  from h3 h4 example_problems3_return
    removeCategory_alike [where cfg = example_config and calls = example_calls
      and target = "''example.com''" and options = example_options and n = "''Performance''"
      and ps = example_problems3 and l = None]
  have 3: "hintsCount (AnalysisResult_calls example_config
       (AddCategory ''Performance'' None # map (\<lambda>p. AddProblem p None) example_problems3)
       example_result)
       = hintsCount example_result
         + int (length (filter (\<lambda>p. severity p \<noteq> off \<and> severity p \<noteq> default) example_problems3))"
     "hintsCount (AnalysisResult_removeCategory ''Performance''
       (AnalysisResult_calls example_config
          (AddCategory ''Performance'' None # map (\<lambda>p. AddProblem p None) example_problems3)
          example_result)) = hintsCount example_result"
    unfolding Let_def example_result_def [symmetric] by blast+
  show ?thesis
    unfolding 1 2 3 cnt ps sv using example_problems3_return by (simp add: ex)
qed

text \<open>
  C4, as stated, fails: a category is added, receives one problem of severity
  \<open>information\<close> and is removed, in calls that all return. The root \<open>hintsCount\<close> was 0
  before and is -1 after: the root did not count the problem, the category did, and the
  removal subtracts the category's count.
\<close>

theorem removeCategory_not_back_for_information:
  "AnalysisResult_returns example_config
     [AddCategory ''security'' None,
      AddProblem (example_problem ''sri'' ''security'' information) None,
      RemoveCategory ''security'']
     (AnalysisResult_new ''example.com'' example_options) \<and>
   hintsCount (AnalysisResult_new ''example.com'' example_options) = 0 \<and>
   hintsCount example_result_information = - 1 \<and>
   hintsCount example_result_information
     \<noteq> hintsCount (AnalysisResult_new ''example.com'' example_options)"
  unfolding example_result_information_def by code_simp

section \<open>Registering a category\<close>

text \<open>
  C6, as stated, fails: after \<open>addCategory("Security")\<close> twice the one category is stored
  with the name as given, \<open>Security\<close>, not \<open>security\<close>.
\<close>

theorem addCategory_name_as_given:
  "categories example_security_twice = [0] \<and>
   CategoryResult.name (categoryStore example_security_twice ! 0) = ''Security'' \<and>
   CategoryResult.name (categoryStore example_security_twice ! 0) \<noteq> ''security''"
  unfolding example_security_twice_def by code_simp

lemma CategoryResult_new_security:
  "\<exists>c. CategoryResult_new cfg ''Security'' u b l = Inr c \<and> CategoryResult.name c = ''Security''"
  by (simp add: CategoryResult_new_def getProperty_def objectPrototypeKeys_def Let_def
      toLowerCase_examples split: option.splits)

text \<open>
  C6, amended. On a new analysis result \<open>addCategory("Security")\<close> twice gives exactly one
  category, whose name is stored as given, \<open>Security\<close>; only the key of the cache is in
  lower case, \<open>security\<close>. Afterwards \<open>getCategoryByName\<close> returns that same category for
  \<open>Security\<close>, \<open>security\<close> and \<open>SECURITY\<close>, asked separately or one after the other.
\<close>

theorem addCategory_twice_one_category:
  "let a = AnalysisResult_calls cfg [AddCategory ''Security'' l1, AddCategory ''Security'' l2]
             (AnalysisResult_new target options)
   in categories a = [0] \<and> length (categoryStore a) = 1 \<and>
      CategoryResult.name (categoryStore a ! 0) = ''Security'' \<and>
      dom (cache a) = {''security''} \<and>
      fst (AnalysisResult_getCategoryByName ''Security'' a) = Some 0 \<and>
      fst (AnalysisResult_getCategoryByName ''security'' a) = Some 0 \<and>
      fst (AnalysisResult_getCategoryByName ''SECURITY'' a) = Some 0 \<and>
      fst (AnalysisResult_getCategoryByName ''SECURITY''
             (snd (AnalysisResult_getCategoryByName ''security''
                (snd (AnalysisResult_getCategoryByName ''Security'' a))))) = Some 0"
proof -
  let ?init = "AnalysisResult_new target options"
  obtain c where c: "CategoryResult_new cfg ''Security'' (url ?init) (isScanner ?init) l1 = Inr c"
    and n: "CategoryResult.name c = ''Security''"
    using CategoryResult_new_security by blast
  have e: "categories ?init = []" "categoryStore ?init = []" "cache ?init = Map.empty"
    by (simp_all add: AnalysisResult_new_def Let_def)
  show ?thesis
    using c n e
    by (simp add: Let_def AnalysisResult_addCategory_def AnalysisResult_getCategoryByName_def
        toLowerCase_examples)
qed

end
